theory Spec2Isabelle
  imports
    Complex_Main
    "HOL-Library.Char_ord"
    "HOL-Library.List_Lexorder"
    "HOL-Library.Product_Lexorder"
    "HOL-Library.Multiset"
    "HOL-Library.Sublist"
begin

section \<open>JavaScript values used by the product search\<close>

text \<open>
  Strings are lists of code units. A \<^typ>\<open>char\<close> stands for the code unit with the same
  number, so the strings of this development are those whose code units are below 256
  (Latin-1). Numbers are \<open>jsnum\<close>: the IEEE special values \<open>NaN\<close>, \<open>+Infinity\<close> and
  \<open>-Infinity\<close>, and the finite values as exact rationals. The rounding of a value to the
  nearest double, the overflow of a large finite value to an infinity and the sign of zero
  are not represented: the infinities of this development are those a literal \<open>Infinity\<close>
  or a query parameter puts in, and those the operations make of them.
\<close>

datatype jsnum = NaN | NInf | Fin rat | PInf

definition isNaN :: "jsnum \<Rightarrow> bool" where
  "isNaN v = (v = NaN)"

text \<open>\<open>a - b\<close> on numbers.\<close>

fun jsub :: "jsnum \<Rightarrow> jsnum \<Rightarrow> jsnum" where
  "jsub NaN _ = NaN"
| "jsub _ NaN = NaN"
| "jsub (Fin a) (Fin b) = Fin (a - b)"
| "jsub PInf PInf = NaN"
| "jsub NInf NInf = NaN"
| "jsub PInf _ = PInf"
| "jsub NInf _ = NInf"
| "jsub (Fin _) PInf = NInf"
| "jsub (Fin _) NInf = PInf"

text \<open>\<open>a + b\<close> on numbers.\<close>

fun jadd :: "jsnum \<Rightarrow> jsnum \<Rightarrow> jsnum" where
  "jadd NaN _ = NaN"
| "jadd _ NaN = NaN"
| "jadd (Fin a) (Fin b) = Fin (a + b)"
| "jadd PInf NInf = NaN"
| "jadd NInf PInf = NaN"
| "jadd PInf _ = PInf"
| "jadd NInf _ = NInf"
| "jadd (Fin _) PInf = PInf"
| "jadd (Fin _) NInf = NInf"

text \<open>\<open>a * b\<close> on numbers.\<close>

fun jmul :: "jsnum \<Rightarrow> jsnum \<Rightarrow> jsnum" where
  "jmul NaN _ = NaN"
| "jmul _ NaN = NaN"
| "jmul (Fin a) (Fin b) = Fin (a * b)"
| "jmul (Fin a) PInf = (if a = 0 then NaN else if 0 < a then PInf else NInf)"
| "jmul (Fin a) NInf = (if a = 0 then NaN else if 0 < a then NInf else PInf)"
| "jmul PInf (Fin b) = (if b = 0 then NaN else if 0 < b then PInf else NInf)"
| "jmul NInf (Fin b) = (if b = 0 then NaN else if 0 < b then NInf else PInf)"
| "jmul PInf PInf = PInf"
| "jmul NInf NInf = PInf"
| "jmul PInf NInf = NInf"
| "jmul NInf PInf = NInf"

text \<open>
  \<open>a / b\<close> on numbers. A finite number over an infinity is zero. The zero divisor of
  this development is \<open>+0\<close>; the handler below never divides by zero.
\<close>

fun jdiv :: "jsnum \<Rightarrow> jsnum \<Rightarrow> jsnum" where
  "jdiv NaN _ = NaN"
| "jdiv _ NaN = NaN"
| "jdiv (Fin a) (Fin b) =
     (if b \<noteq> 0 then Fin (a / b) else if a = 0 then NaN else if 0 < a then PInf else NInf)"
| "jdiv (Fin _) PInf = Fin 0"
| "jdiv (Fin _) NInf = Fin 0"
| "jdiv PInf (Fin b) = (if 0 \<le> b then PInf else NInf)"
| "jdiv NInf (Fin b) = (if 0 \<le> b then NInf else PInf)"
| "jdiv PInf PInf = NaN"
| "jdiv PInf NInf = NaN"
| "jdiv NInf PInf = NaN"
| "jdiv NInf NInf = NaN"

text \<open>\<open>a <= b\<close> and \<open>a >= b\<close>: false as soon as one side is \<open>NaN\<close>.\<close>

fun jle :: "jsnum \<Rightarrow> jsnum \<Rightarrow> bool" where
  "jle NaN _ = False"
| "jle _ NaN = False"
| "jle NInf _ = True"
| "jle _ PInf = True"
| "jle (Fin a) (Fin b) = (a \<le> b)"
| "jle PInf _ = False"
| "jle (Fin _) NInf = False"

definition jge :: "jsnum \<Rightarrow> jsnum \<Rightarrow> bool" where
  "jge a b = jle b a"

text \<open>\<open>a > b\<close>.\<close>

fun jgt :: "jsnum \<Rightarrow> jsnum \<Rightarrow> bool" where
  "jgt NaN _ = False"
| "jgt _ NaN = False"
| "jgt NInf _ = False"
| "jgt PInf PInf = False"
| "jgt PInf _ = True"
| "jgt (Fin a) (Fin b) = (b < a)"
| "jgt (Fin _) NInf = True"
| "jgt (Fin _) PInf = False"

text \<open>\<open>Math.min\<close>, \<open>Math.max\<close>, \<open>Math.floor\<close> and \<open>Math.ceil\<close>.\<close>

fun Math_min :: "jsnum \<Rightarrow> jsnum \<Rightarrow> jsnum" where
  "Math_min NaN _ = NaN"
| "Math_min _ NaN = NaN"
| "Math_min a b = (if jle a b then a else b)"

fun Math_max :: "jsnum \<Rightarrow> jsnum \<Rightarrow> jsnum" where
  "Math_max NaN _ = NaN"
| "Math_max _ NaN = NaN"
| "Math_max a b = (if jle a b then b else a)"

fun Math_floor :: "jsnum \<Rightarrow> jsnum" where
  "Math_floor (Fin a) = Fin (of_int \<lfloor>a\<rfloor>)"
| "Math_floor v = v"

fun Math_ceil :: "jsnum \<Rightarrow> jsnum" where
  "Math_ceil (Fin a) = Fin (of_int \<lceil>a\<rceil>)"
| "Math_ceil v = v"

subsection \<open>Characters and strings\<close>

text \<open>
  White space, as \<open>String.prototype.trim\<close>, the regular expression class \<open>\s\<close> and
  \<open>parseFloat\<close> understand it, among the code units below 256: TAB, LF, VT, FF, CR,
  SPACE and NBSP.
\<close>

definition is_space :: "char \<Rightarrow> bool" where
  "is_space c = (of_char c \<in> {9, 10, 11, 12, 13, 32, 160 :: nat})"

definition is_digit :: "char \<Rightarrow> bool" where
  "is_digit c = (c \<in> set ''0123456789'')"

definition digit_val :: "char \<Rightarrow> nat" where
  "digit_val c = of_char c - 48"

text \<open>The value of a run of decimal digits.\<close>

definition digits_val :: "string \<Rightarrow> nat" where
  "digits_val ds = foldl (\<lambda>a c. 10 * a + digit_val c) 0 ds"

definition trim :: "string \<Rightarrow> string" where
  "trim s = rev (dropWhile is_space (rev (dropWhile is_space s)))"

text \<open>\<open>s.replace(/\s/g, '')\<close> and \<open>s.replace(/\./g, '')\<close>.\<close>

definition remove_spaces :: "string \<Rightarrow> string" where
  "remove_spaces s = filter (\<lambda>c. \<not> is_space c) s"

definition remove_dots :: "string \<Rightarrow> string" where
  "remove_dots s = filter (\<lambda>c. c \<noteq> CHR ''.'') s"

text \<open>\<open>s.replace(',', '.')\<close>: a string pattern replaces the first occurrence only.\<close>

fun replace_comma :: "string \<Rightarrow> string" where
  "replace_comma [] = []"
| "replace_comma (c # cs) = (if c = CHR '','' then CHR ''.'' # cs else c # replace_comma cs)"

text \<open>\<open>s.split('.')\<close>: the pieces between the dots, one more than there are dots.\<close>

fun split_dot :: "string \<Rightarrow> string list" where
  "split_dot [] = [[]]"
| "split_dot (c # cs) =
     (if c = CHR ''.'' then [] # split_dot cs
      else (case split_dot cs of [] \<Rightarrow> [[c]] | p # ps \<Rightarrow> (c # p) # ps))"

text \<open>\<open>t.includes(q)\<close>: \<open>q\<close> occurs in \<open>t\<close> as a contiguous piece.\<close>

fun str_includes :: "string \<Rightarrow> string \<Rightarrow> bool" where
  "str_includes [] q = (q = [])"
| "str_includes (c # cs) q = (prefix q (c # cs) \<or> str_includes cs q)"

subsection \<open>parseFloat\<close>

text \<open>
  \<open>parseFloat\<close> skips leading white space and reads the longest prefix that is a decimal
  literal: an optional sign, then \<open>Infinity\<close>, or digits with an optional fraction, or a
  dot followed by digits, then an optional exponent (taken only when it has a digit).
  What follows the literal is ignored; with no literal the result is \<open>NaN\<close>.
\<close>

definition pow10 :: "int \<Rightarrow> rat" where
  "pow10 e = (if 0 \<le> e then 10 ^ nat e else 1 / 10 ^ nat (- e))"

definition exponent_part :: "string \<Rightarrow> int" where
  "exponent_part r =
     (case r of
        [] \<Rightarrow> 0
      | e # r1 \<Rightarrow>
          if e = CHR ''e'' \<or> e = CHR ''E'' then
            (let (sg, r2) = (case r1 of
                               [] \<Rightarrow> (1, r1)
                             | c # r' \<Rightarrow> if c = CHR ''-'' then (- 1, r')
                                         else if c = CHR ''+'' then (1, r') else (1, r1));
                 ed = takeWhile is_digit r2
             in if ed = [] then 0 else sg * int (digits_val ed))
          else 0)"

definition unsigned_literal :: "string \<Rightarrow> rat option" where
  "unsigned_literal u =
     (let ip = takeWhile is_digit u;
          r1 = dropWhile is_digit u;
          (fp, r2) = (case r1 of
                        [] \<Rightarrow> ([], r1)
                      | c # r \<Rightarrow> if c = CHR ''.'' then (takeWhile is_digit r, dropWhile is_digit r)
                                 else ([], r1))
      in if ip = [] \<and> fp = [] then None
         else Some ((of_nat (digits_val ip) + of_nat (digits_val fp) / 10 ^ length fp)
                    * pow10 (exponent_part r2)))"

definition parseFloat :: "string \<Rightarrow> jsnum" where
  "parseFloat s =
     (let t = dropWhile is_space s;
          (neg, u) = (case t of
                        [] \<Rightarrow> (False, t)
                      | c # r \<Rightarrow> if c = CHR ''-'' then (True, r)
                                 else if c = CHR ''+'' then (False, r) else (False, t))
      in if prefix ''Infinity'' u then (if neg then NInf else PInf)
         else (case unsigned_literal u of
                 None \<Rightarrow> NaN
               | Some v \<Rightarrow> Fin (if neg then - v else v)))"

section \<open>Normalizer: \<open>lib/utils.ts\<close>\<close>

text \<open>
  \<open>normalizePrice(priceStr)\<close>. The guard \<open>!priceStr || priceStr.trim() === ''\<close> is the
  test that the trimmed text is empty (the empty string is the only falsy string).
\<close>

definition normalizePrice :: "string \<Rightarrow> jsnum" where
  "normalizePrice priceStr =
     (if priceStr = [] \<or> trim priceStr = [] then Fin 0
      else
        let cleaned = remove_spaces (trim priceStr);
            cleaned' =
              (if CHR '','' \<in> set cleaned then replace_comma (remove_dots cleaned)
               else if CHR ''.'' \<in> set cleaned then
                 (let parts = split_dot cleaned
                  in if length parts = 2 then
                       (if length (parts ! 1) = 2 then cleaned else remove_dots cleaned)
                     else remove_dots cleaned)
               else cleaned);
            num = parseFloat cleaned'
        in if isNaN num then Fin 0 else num)"

text \<open>\<open>hasGames(jogosIncluidos)\<close>.\<close>

definition hasGames :: "string \<Rightarrow> bool" where
  "hasGames jogosIncluidos = (trim jogosIncluidos \<noteq> [])"

subsection \<open>The regular expressions of \<open>extractStorageInGB\<close>\<close>

text \<open>
  The two patterns are built from character classes, sequence, an optional group, and
  \<open>+\<close> and \<open>*\<close> on a character class. \<open>rx_match r s\<close> lists what is left of \<open>s\<close> after
  each way of matching \<open>r\<close> at its start, in the order a backtracking matcher tries them
  (greedy first).
\<close>

datatype regex =
    Cls "char \<Rightarrow> bool"
  | Seq regex regex
  | Opt regex
  | Plus "char \<Rightarrow> bool"
  | Star "char \<Rightarrow> bool"

fun star_rests :: "(char \<Rightarrow> bool) \<Rightarrow> string \<Rightarrow> string list" where
  "star_rests p [] = [[]]"
| "star_rests p (c # cs) = (if p c then star_rests p cs @ [c # cs] else [c # cs])"

fun rx_match :: "regex \<Rightarrow> string \<Rightarrow> string list" where
  "rx_match (Cls p) s = (case s of [] \<Rightarrow> [] | c # cs \<Rightarrow> if p c then [cs] else [])"
| "rx_match (Seq a b) s = concat (map (rx_match b) (rx_match a s))"
| "rx_match (Opt a) s = rx_match a s @ [s]"
| "rx_match (Plus p) s = (case s of [] \<Rightarrow> [] | c # cs \<Rightarrow> if p c then star_rests p cs else [])"
| "rx_match (Star p) s = star_rests p s"

text \<open>
  A pattern is its capture group 1, which opens both patterns, and what follows the
  group. \<open>first_capture\<close> takes the first way of matching the group after which the rest
  matches, and returns the text the group consumed; \<open>str_match\<close> is
  \<open>storageStr.match(pattern)\<close> for a pattern without the \<open>g\<close> flag: the leftmost start
  that matches, as \<open>match[1]\<close>, or \<open>None\<close> for \<open>null\<close>.
\<close>

fun first_capture :: "regex \<Rightarrow> string \<Rightarrow> string list \<Rightarrow> string option" where
  "first_capture rest s [] = None"
| "first_capture rest s (r # rs) =
     (if rx_match rest r \<noteq> [] then Some (take (length s - length r) s)
      else first_capture rest s rs)"

fun str_match :: "regex \<Rightarrow> regex \<Rightarrow> string \<Rightarrow> string option" where
  "str_match g rest [] = first_capture rest [] (rx_match g [])"
| "str_match g rest (c # cs) =
     (case first_capture rest (c # cs) (rx_match g (c # cs)) of
        Some cap \<Rightarrow> Some cap
      | None \<Rightarrow> str_match g rest cs)"

text \<open>\<open>(\d+(?:[.,]\d+)?)\<close>, and \<open>\s*TB\<close> and \<open>\s*GB\<close> under the \<open>i\<close> flag.\<close>

definition number_group :: regex where
  "number_group =
     Seq (Plus is_digit) (Opt (Seq (Cls (\<lambda>c. c = CHR ''.'' \<or> c = CHR '','')) (Plus is_digit)))"

definition ci :: "char \<Rightarrow> char \<Rightarrow> char \<Rightarrow> bool" where
  "ci upper lower c = (c = upper \<or> c = lower)"

definition TB_tail :: regex where
  "TB_tail = Seq (Star is_space) (Seq (Cls (ci CHR ''T'' CHR ''t'')) (Cls (ci CHR ''B'' CHR ''b'')))"

definition GB_tail :: regex where
  "GB_tail = Seq (Star is_space) (Seq (Cls (ci CHR ''G'' CHR ''g'')) (Cls (ci CHR ''B'' CHR ''b'')))"

text \<open>
  The list \<open>patterns\<close>: each pattern with the value of \<open>pattern.source.includes('TB')\<close>,
  true for the first and false for the second.
\<close>

definition patterns :: "(regex \<times> bool) list" where
  "patterns = [(TB_tail, True), (GB_tail, False)]"

text \<open>The loop \<open>for (const pattern of patterns)\<close> of \<open>extractStorageInGB\<close>.\<close>

fun try_patterns :: "(regex \<times> bool) list \<Rightarrow> string \<Rightarrow> jsnum option" where
  "try_patterns [] storageStr = None"
| "try_patterns ((rest, is_TB) # ps) storageStr =
     (case str_match number_group rest storageStr of
        None \<Rightarrow> try_patterns ps storageStr
      | Some m1 \<Rightarrow>
          (let v = parseFloat (replace_comma m1)
           in if \<not> isNaN v then (if is_TB then Some (jmul v (Fin 1024)) else Some v)
              else try_patterns ps storageStr))"

text \<open>\<open>extractStorageInGB(storageStr)\<close>; \<open>None\<close> is \<open>null\<close>.\<close>

definition extractStorageInGB :: "string \<Rightarrow> jsnum option" where
  "extractStorageInGB storageStr =
     (if storageStr = [] \<or> trim storageStr = [] then None
      else try_patterns patterns storageStr)"

section \<open>Data model: \<open>lib/types.ts\<close>\<close>

record RawProduct =
  preco_vista :: string
  preco_parcelado :: string
  modelo :: string
  nome_anuncio :: string
  link_pagina :: string
  tipo :: string
  console_type :: string
  cor :: string
  com_leitor_disco :: string
  espaco_armazenamento :: string
  jogos_incluidos :: string
  inclui_controles :: string
  marca :: string
  site_origem :: string
  data_coleta :: string
  disponibilidade :: string

record Product =
  preco_vista :: jsnum
  preco_parcelado :: string
  modelo :: string
  nome_anuncio :: string
  link_pagina :: string
  tipo :: string
  console_type :: string
  cor :: string
  com_leitor_disco :: string
  espaco_armazenamento :: string
  espaco_armazenamento_gb :: "jsnum option"
  jogos_incluidos :: string
  inclui_jogos :: bool
  inclui_controles :: string
  marca :: string
  site_origem :: string
  data_coleta :: string
  disponibilidade :: string

text \<open>
  \<open>SearchFilters\<close>, with \<open>None\<close> for \<open>undefined\<close>. The route reads \<open>sortBy\<close> from the
  query string through a cast, so it is any string. \<open>page\<close> and \<open>limit\<close> are numbers:
  the route takes them from \<open>parseInt\<close>, which gives an integer, \<open>NaN\<close>, or an infinity
  for a run of digits too long for a double.
\<close>

record SearchFilters =
  query :: "string option"
  precoMin :: "jsnum option"
  precoMax :: "jsnum option"
  modelo :: "string list option"
  tipo :: "string list option"
  marca :: "string list option"
  site_origem :: "string list option"
  inclui_controles :: "string option"
  inclui_jogos :: "bool option"
  espacoMin :: "jsnum option"
  espacoMax :: "jsnum option"
  sortBy :: "string option"
  page :: "jsnum option"
  limit :: "jsnum option"

record FilterValues =
  modelos :: "string list"
  tipos :: "string list"
  marcas :: "string list"
  sites :: "string list"
  precoMin :: jsnum
  precoMax :: jsnum
  espacoMin :: jsnum
  espacoMax :: jsnum

record SearchResponse =
  products :: "Product list"
  total :: int
  page :: jsnum
  limit :: jsnum
  totalPages :: jsnum
  filters :: FilterValues

section \<open>Catalog: \<open>loadProducts\<close> and \<open>getFilterValues\<close>\<close>

text \<open>
  The object literal of the \<open>map\<close> callback of \<open>loadProducts\<close>: the fields of \<open>raw\<close>, with
  \<open>preco_vista\<close> replaced and the two derived fields added.
\<close>

definition normalizeProduct :: "RawProduct \<Rightarrow> Product" where
  "normalizeProduct raw =
     \<lparr> Product.preco_vista = normalizePrice (RawProduct.preco_vista raw),
       Product.preco_parcelado = RawProduct.preco_parcelado raw,
       Product.modelo = RawProduct.modelo raw,
       Product.nome_anuncio = RawProduct.nome_anuncio raw,
       Product.link_pagina = RawProduct.link_pagina raw,
       Product.tipo = RawProduct.tipo raw,
       Product.console_type = RawProduct.console_type raw,
       Product.cor = RawProduct.cor raw,
       Product.com_leitor_disco = RawProduct.com_leitor_disco raw,
       Product.espaco_armazenamento = RawProduct.espaco_armazenamento raw,
       Product.espaco_armazenamento_gb = extractStorageInGB (RawProduct.espaco_armazenamento raw),
       Product.jogos_incluidos = RawProduct.jogos_incluidos raw,
       Product.inclui_jogos = hasGames (RawProduct.jogos_incluidos raw),
       Product.inclui_controles = RawProduct.inclui_controles raw,
       Product.marca = RawProduct.marca raw,
       Product.site_origem = RawProduct.site_origem raw,
       Product.data_coleta = RawProduct.data_coleta raw,
       Product.disponibilidade = RawProduct.disponibilidade raw \<rparr>"

text \<open>
  Neither interface declares \<open>originalIndex\<close> and the object literal above does not define
  it, so the property read \<open>a.originalIndex\<close> of the route gives \<open>undefined\<close> (\<open>None\<close>) on
  every product. \<open>to_number\<close> is the conversion the subtraction applies to it.
\<close>

definition originalIndex :: "Product \<Rightarrow> jsnum option" where
  "originalIndex p = None"

definition to_number :: "jsnum option \<Rightarrow> jsnum" where
  "to_number v = (case v of None \<Rightarrow> NaN | Some n \<Rightarrow> n)"

text \<open>
  The two JSON files, as \<open>JSON.parse(fs.readFileSync(...))\<close> returns them, or \<open>None\<close> when
  the read or the parse throws.
\<close>

record sources =
  magazineluizaData :: "RawProduct list option"
  mercadolivreData :: "RawProduct list option"

datatype load_error = ReadError

text \<open>The \<open>try\<close> block of \<open>loadProducts\<close>, up to \<open>normalizedProducts\<close>.\<close>

definition read_and_normalize :: "sources \<Rightarrow> load_error + Product list" where
  "read_and_normalize src =
     (case magazineluizaData src of
        None \<Rightarrow> Inl ReadError
      | Some magalu \<Rightarrow>
          (case mercadolivreData src of
             None \<Rightarrow> Inl ReadError
           | Some mercado \<Rightarrow>
               (let allRawProducts = magalu @ mercado
                in Inr (map normalizeProduct allRawProducts))))"

text \<open>
  Arrays are mutable and the route sorts in place, so the model says which array a variable
  refers to: the one array held by the module variable \<open>cachedProducts\<close>, whose contents
  are the state \<open>Product list option\<close> (\<open>None\<close> is \<open>null\<close>), or an array of the request's own.
\<close>

datatype array_ref = Cached | Local "Product list"

type_synonym cache = "Product list option"

definition deref :: "cache \<Rightarrow> array_ref \<Rightarrow> Product list" where
  "deref c a = (case a of Local xs \<Rightarrow> xs | Cached \<Rightarrow> (case c of Some xs \<Rightarrow> xs | None \<Rightarrow> []))"

text \<open>
  \<open>loadProducts()\<close>: the array it returns and the new state of \<open>cachedProducts\<close>. Every
  array is truthy, so a cached array is returned whatever it holds. A successful load
  stores the new array and returns that same array; a failed one returns a new empty
  array and stores nothing.
\<close>

definition loadProducts :: "sources \<Rightarrow> cache \<Rightarrow> array_ref \<times> cache" where
  "loadProducts src cachedProducts =
     (case cachedProducts of
        Some _ \<Rightarrow> (Cached, cachedProducts)
      | None \<Rightarrow>
          (case read_and_normalize src of
             Inr normalizedProducts \<Rightarrow> (Cached, Some normalizedProducts)
           | Inl _ \<Rightarrow> (Local [], None)))"

text \<open>
  \<open>getFilterValues(products)\<close>. A \<open>Set\<close> is the list of its members in insertion order;
  \<open>Array.from(set).sort()\<close> orders strings by their code units, which is the order of
  \<^typ>\<open>string\<close> here.
\<close>

definition set_add :: "string \<Rightarrow> string list \<Rightarrow> string list" where
  "set_add x xs = (if x \<in> set xs then xs else xs @ [x])"

record facet_acc =
  acc_modelos :: "string list"
  acc_tipos :: "string list"
  acc_marcas :: "string list"
  acc_sites :: "string list"
  acc_precoMin :: jsnum
  acc_precoMax :: jsnum
  acc_espacoMin :: jsnum
  acc_espacoMax :: jsnum

definition facet_init :: facet_acc where
  "facet_init =
     \<lparr> acc_modelos = [], acc_tipos = [], acc_marcas = [], acc_sites = [],
       acc_precoMin = PInf, acc_precoMax = Fin 0, acc_espacoMin = PInf, acc_espacoMax = Fin 0 \<rparr>"

text \<open>The body of the \<open>forEach\<close> callback.\<close>

definition facet_step :: "Product \<Rightarrow> facet_acc \<Rightarrow> facet_acc" where
  "facet_step product acc =
     (let a1 = (if Product.modelo product \<noteq> [] \<and> trim (Product.modelo product) \<noteq> []
                then acc\<lparr>acc_modelos := set_add (Product.modelo product) (acc_modelos acc)\<rparr>
                else acc);
          a2 = (if Product.tipo product \<noteq> [] \<and> trim (Product.tipo product) \<noteq> []
                then a1\<lparr>acc_tipos := set_add (Product.tipo product) (acc_tipos a1)\<rparr>
                else a1);
          a3 = (if Product.marca product \<noteq> [] \<and> trim (Product.marca product) \<noteq> []
                then a2\<lparr>acc_marcas := set_add (Product.marca product) (acc_marcas a2)\<rparr>
                else a2);
          a4 = (if Product.site_origem product \<noteq> [] \<and> trim (Product.site_origem product) \<noteq> []
                then a3\<lparr>acc_sites := set_add (Product.site_origem product) (acc_sites a3)\<rparr>
                else a3);
          a5 = (if jgt (Product.preco_vista product) (Fin 0)
                then a4\<lparr>acc_precoMin := Math_min (acc_precoMin a4) (Product.preco_vista product),
                        acc_precoMax := Math_max (acc_precoMax a4) (Product.preco_vista product)\<rparr>
                else a4)
      in (case Product.espaco_armazenamento_gb product of
            None \<Rightarrow> a5
          | Some gb \<Rightarrow> a5\<lparr>acc_espacoMin := Math_min (acc_espacoMin a5) gb,
                          acc_espacoMax := Math_max (acc_espacoMax a5) gb\<rparr>))"

definition getFilterValues :: "Product list \<Rightarrow> FilterValues" where
  "getFilterValues ps =
     (let acc = fold facet_step ps facet_init
      in \<lparr> modelos = sort (acc_modelos acc),
           tipos = sort (acc_tipos acc),
           marcas = sort (acc_marcas acc),
           sites = sort (acc_sites acc),
           FilterValues.precoMin =
             (if acc_precoMin acc = PInf then Fin 0 else Math_floor (acc_precoMin acc)),
           FilterValues.precoMax =
             (if acc_precoMax acc = Fin 0 then Fin 10000 else Math_ceil (acc_precoMax acc)),
           FilterValues.espacoMin =
             (if acc_espacoMin acc = PInf then Fin 0 else Math_floor (acc_espacoMin acc)),
           FilterValues.espacoMax =
             (if acc_espacoMax acc = Fin 0 then Fin 2000 else Math_ceil (acc_espacoMax acc)) \<rparr>)"

section \<open>Query engine: the \<open>GET\<close> handler of \<open>api/products/route.ts\<close>\<close>

text \<open>
  The model starts where the handler has built \<open>filters: SearchFilters\<close> from the query
  string. On products and filters of these types no statement of the handler throws, so
  its \<open>catch\<close> branch is not reached and the handler is a function to the response.
\<close>

subsection \<open>Text search\<close>

text \<open>\<open>toLowerCase\<close> on a code unit below 256: the letters A-Z and the Latin-1 capitals.\<close>

definition toLowerCase_char :: "char \<Rightarrow> char" where
  "toLowerCase_char c =
     (let n = (of_char c :: nat)
      in if (65 \<le> n \<and> n \<le> 90) \<or> (192 \<le> n \<and> n \<le> 222 \<and> n \<noteq> 215)
         then char_of (n + 32) else c)"

definition toLowerCase :: "string \<Rightarrow> string" where
  "toLowerCase s = map toLowerCase_char s"

fun join :: "string \<Rightarrow> string list \<Rightarrow> string" where
  "join sep [] = []"
| "join sep [x] = x"
| "join sep (x # y # ys) = x @ sep @ join sep (y # ys)"

text \<open>The callback of the text filter; \<open>.filter(Boolean)\<close> drops the empty strings.\<close>

definition matches_query :: "string \<Rightarrow> Product \<Rightarrow> bool" where
  "matches_query q product =
     (let queryLower = toLowerCase q;
          searchableText =
            toLowerCase
              (join '' ''
                 (filter (\<lambda>t. t \<noteq> [])
                    [Product.nome_anuncio product, Product.modelo product, Product.tipo product,
                     Product.marca product, Product.cor product]))
      in str_includes searchableText queryLower)"

subsection \<open>Filters\<close>

text \<open>
  Each \<open>if (guard) products = products.filter(callback)\<close> of the handler, in its order:
  the callback when the guard holds, \<open>None\<close> when it does not.
\<close>

definition in_list :: "string list option \<Rightarrow> (Product \<Rightarrow> string) \<Rightarrow> (Product \<Rightarrow> bool) option" where
  "in_list sel field =
     (case sel of
        None \<Rightarrow> None
      | Some vs \<Rightarrow> if length vs > 0 then Some (\<lambda>p. field p \<in> set vs) else None)"

definition filter_steps :: "SearchFilters \<Rightarrow> (Product \<Rightarrow> bool) option list" where
  "filter_steps f =
     [ (case query f of
          None \<Rightarrow> None
        | Some q \<Rightarrow> if q \<noteq> [] then Some (matches_query q) else None),
       map_option (\<lambda>m p. jge (Product.preco_vista p) m) (SearchFilters.precoMin f),
       map_option (\<lambda>m p. jle (Product.preco_vista p) m) (SearchFilters.precoMax f),
       in_list (SearchFilters.modelo f) Product.modelo,
       in_list (SearchFilters.tipo f) Product.tipo,
       in_list (SearchFilters.marca f) Product.marca,
       in_list (SearchFilters.site_origem f) Product.site_origem,
       map_option (\<lambda>v p. Product.inclui_controles p = v) (SearchFilters.inclui_controles f),
       map_option (\<lambda>v p. Product.inclui_jogos p = v) (SearchFilters.inclui_jogos f),
       map_option
         (\<lambda>m p. case Product.espaco_armazenamento_gb p of None \<Rightarrow> False | Some gb \<Rightarrow> jge gb m)
         (SearchFilters.espacoMin f),
       map_option
         (\<lambda>m p. case Product.espaco_armazenamento_gb p of None \<Rightarrow> False | Some gb \<Rightarrow> jle gb m)
         (SearchFilters.espacoMax f) ]"

text \<open>The callbacks that run, in order.\<close>

definition active_filters :: "SearchFilters \<Rightarrow> (Product \<Rightarrow> bool) list" where
  "active_filters f = concat (map (\<lambda>s. case s of None \<Rightarrow> [] | Some cb \<Rightarrow> [cb]) (filter_steps f))"

text \<open>\<open>products = products.filter(cb)\<close>: the result is a new array.\<close>

definition array_filter :: "cache \<Rightarrow> array_ref \<Rightarrow> (Product \<Rightarrow> bool) \<Rightarrow> array_ref" where
  "array_filter c a cb = Local (filter cb (deref c a))"

definition apply_filters :: "SearchFilters \<Rightarrow> cache \<Rightarrow> array_ref \<Rightarrow> array_ref" where
  "apply_filters f c a = foldl (array_filter c) a (active_filters f)"

subsection \<open>Sorting\<close>

text \<open>
  \<open>Array.prototype.sort(comparefn)\<close> sorts in place and is stable; a comparator result of
  \<open>NaN\<close> counts as 0. For a consistent comparator every stable sort gives the same array,
  the one insertion gives: \<open>x\<close> goes behind \<open>y\<close> only when \<open>comparefn(x, y) > 0\<close>.
\<close>

fun insort_cmp :: "('a \<Rightarrow> 'a \<Rightarrow> jsnum) \<Rightarrow> 'a \<Rightarrow> 'a list \<Rightarrow> 'a list" where
  "insort_cmp cmp x [] = [x]"
| "insort_cmp cmp x (y # ys) =
     (if jgt (cmp x y) (Fin 0) then y # insort_cmp cmp x ys else x # y # ys)"

definition js_sort :: "('a \<Rightarrow> 'a \<Rightarrow> jsnum) \<Rightarrow> 'a list \<Rightarrow> 'a list" where
  "js_sort cmp xs = foldr (insort_cmp cmp) xs []"

definition cmp_preco_asc :: "Product \<Rightarrow> Product \<Rightarrow> jsnum" where
  "cmp_preco_asc a b = jsub (Product.preco_vista a) (Product.preco_vista b)"

definition cmp_preco_desc :: "Product \<Rightarrow> Product \<Rightarrow> jsnum" where
  "cmp_preco_desc a b = jsub (Product.preco_vista b) (Product.preco_vista a)"

definition cmp_original :: "Product \<Rightarrow> Product \<Rightarrow> jsnum" where
  "cmp_original a b = jsub (to_number (originalIndex a)) (to_number (originalIndex b))"

text \<open>
  The comparator the \<open>if\<close> chain on \<open>filters.sortBy\<close> selects; a string that is none of the
  three modes sorts nothing.
\<close>

definition sort_comparator :: "string option \<Rightarrow> (Product \<Rightarrow> Product \<Rightarrow> jsnum) option" where
  "sort_comparator sb =
     (if sb = Some ''preco_asc'' then Some cmp_preco_asc
      else if sb = Some ''preco_desc'' then Some cmp_preco_desc
      else if sb = Some ''original'' \<or> sb = None \<or> sb = Some [] then Some cmp_original
      else None)"

text \<open>\<open>products.sort(cmp)\<close>: the array \<open>products\<close> refers to is sorted where it is.\<close>

definition array_sort ::
    "(Product \<Rightarrow> Product \<Rightarrow> jsnum) \<Rightarrow> cache \<Rightarrow> array_ref \<Rightarrow> array_ref \<times> cache" where
  "array_sort cmp c a =
     (case a of
        Local xs \<Rightarrow> (Local (js_sort cmp xs), c)
      | Cached \<Rightarrow> (Cached, map_option (js_sort cmp) c))"

definition sort_stage :: "string option \<Rightarrow> cache \<Rightarrow> array_ref \<Rightarrow> array_ref \<times> cache" where
  "sort_stage sb c a =
     (case sort_comparator sb of None \<Rightarrow> (a, c) | Some cmp \<Rightarrow> array_sort cmp c a)"

subsection \<open>Pagination and the response\<close>

text \<open>
  \<open>xs.slice(start, end)\<close>. Each argument goes through \<open>ToIntegerOrInfinity\<close>: \<open>NaN\<close> is
  0, an infinity stays, a finite number loses its fraction. An index below zero counts
  from the end, and both indices are clipped to the array.
\<close>

datatype integer_or_infinity = MinusInfinity | Integer int | PlusInfinity

fun ToIntegerOrInfinity :: "jsnum \<Rightarrow> integer_or_infinity" where
  "ToIntegerOrInfinity NaN = Integer 0"
| "ToIntegerOrInfinity PInf = PlusInfinity"
| "ToIntegerOrInfinity NInf = MinusInfinity"
| "ToIntegerOrInfinity (Fin r) = Integer (if 0 \<le> r then \<lfloor>r\<rfloor> else \<lceil>r\<rceil>)"

definition relative_index :: "nat \<Rightarrow> integer_or_infinity \<Rightarrow> nat" where
  "relative_index len rel =
     (case rel of
        MinusInfinity \<Rightarrow> 0
      | Integer i \<Rightarrow> if i < 0 then nat (max (int len + i) 0) else nat (min i (int len))
      | PlusInfinity \<Rightarrow> len)"

definition slice :: "'a list \<Rightarrow> jsnum \<Rightarrow> jsnum \<Rightarrow> 'a list" where
  "slice xs start end =
     (let len = length xs;
          k = relative_index len (ToIntegerOrInfinity start);
          final = relative_index len (ToIntegerOrInfinity end)
      in take (final - k) (drop k xs))"

text \<open>\<open>v || d\<close> on a page number or a page size: \<open>undefined\<close>, \<open>NaN\<close> and 0 give \<open>d\<close>.\<close>

definition or_default :: "jsnum option \<Rightarrow> jsnum \<Rightarrow> jsnum" where
  "or_default v d =
     (case v of None \<Rightarrow> d | Some n \<Rightarrow> if n = NaN \<or> n = Fin 0 then d else n)"

text \<open>
  The handler. \<open>total\<close> is the length of an array, kept as an integer; the other numbers
  of the response are computed with the operations on numbers.
\<close>

definition GET :: "sources \<Rightarrow> cache \<Rightarrow> SearchFilters \<Rightarrow> SearchResponse \<times> cache" where
  "GET src cachedProducts f =
     (let (loaded, c1) = loadProducts src cachedProducts;
          filtered = apply_filters f c1 loaded;
          (sorted, c2) = sort_stage (sortBy f) c1 filtered;
          total = length (deref c2 sorted);
          page = or_default (SearchFilters.page f) (Fin 1);
          limit = or_default (SearchFilters.limit f) (Fin 20);
          startIndex = jmul (jsub page (Fin 1)) limit;
          endIndex = jadd startIndex limit;
          paginatedProducts = slice (deref c2 sorted) startIndex endIndex;
          (allProducts, c3) = loadProducts src c2;
          filterValues = getFilterValues (deref c3 allProducts)
      in (\<lparr> products = paginatedProducts,
             total = int total,
             page = page,
             limit = limit,
             totalPages = Math_ceil (jdiv (Fin (of_nat total)) limit),
             filters = filterValues \<rparr>, c3))"

section \<open>Notions of the specification\<close>

text \<open>A finite, non-negative number.\<close>

definition finite_nonneg :: "jsnum \<Rightarrow> bool" where
  "finite_nonneg v = (case v of Fin r \<Rightarrow> 0 \<le> r | _ \<Rightarrow> False)"

text \<open>
  A price text: digits, dots, commas and white space only. \<open>fraction_of\<close> is what follows
  the first dot of a text.
\<close>

definition price_text :: "string \<Rightarrow> bool" where
  "price_text s = list_all (\<lambda>c. is_digit c \<or> c = CHR ''.'' \<or> c = CHR '','' \<or> is_space c) s"

definition fraction_of :: "string \<Rightarrow> string" where
  "fraction_of t = tl (dropWhile (\<lambda>c. c \<noteq> CHR ''.'') t)"

text \<open>
  The ordered rules of the specification for \<open>parsePrice\<close>, in its words: blank text is 0;
  white space is stripped; with a comma, dots are removed and the comma becomes the
  decimal point; else with exactly one dot and a fraction of exactly two digits the text
  is kept; else dots are removed; the result is parsed, 0 on failure.
\<close>

definition parsePrice_rules :: "string \<Rightarrow> jsnum" where
  "parsePrice_rules text =
     (if list_all is_space text then Fin 0
      else
        let t = filter (\<lambda>c. \<not> is_space c) text;
            t' = (if CHR '','' \<in> set t then replace_comma (filter (\<lambda>c. c \<noteq> CHR ''.'') t)
                  else if count_list t (CHR ''.'') = 1
                          \<and> length (fraction_of t) = 2 \<and> list_all is_digit (fraction_of t)
                  then t
                  else if CHR ''.'' \<in> set t then filter (\<lambda>c. c \<noteq> CHR ''.'') t
                  else t)
        in (case parseFloat t' of NaN \<Rightarrow> Fin 0 | v \<Rightarrow> v))"

text \<open>
  A unit token: the letters TB or GB, in either case, next to each other somewhere in the
  text. \<open>token_value\<close> is the value of a capacity number, digits with an optional
  fraction behind a dot or a comma, the separator read as the decimal point.
\<close>

fun has_unit_token :: "string \<Rightarrow> bool" where
  "has_unit_token (a # b # cs) =
     (((a = CHR ''T'' \<or> a = CHR ''t'' \<or> a = CHR ''G'' \<or> a = CHR ''g'')
        \<and> (b = CHR ''B'' \<or> b = CHR ''b''))
      \<or> has_unit_token (b # cs))"
| "has_unit_token _ = False"

definition token_value :: "string \<Rightarrow> rat" where
  "token_value m =
     (let ip = takeWhile is_digit m; fp = drop (Suc (length ip)) m
      in of_nat (digits_val ip) + of_nat (digits_val fp) / 10 ^ length fp)"

text \<open>The texts the capture group of the two patterns can consume.\<close>

definition number_token :: "string \<Rightarrow> bool" where
  "number_token m =
     (\<exists>ds. ds \<noteq> [] \<and> list_all is_digit ds \<and>
        (m = ds \<or>
         (\<exists>sep fs. (sep = CHR ''.'' \<or> sep = CHR '','') \<and> fs \<noteq> [] \<and> list_all is_digit fs
            \<and> m = ds @ sep # fs)))"

text \<open>
  The collection a request works on: the array \<open>loadProducts\<close> hands to the handler. A record
  passes the filters of a query when every callback that runs accepts it, and the working
  set of a query is what is left of the collection after the filters, in the order the
  sort stage gives it.
\<close>

definition collection :: "sources \<Rightarrow> cache \<Rightarrow> Product list" where
  "collection src c = (case loadProducts src c of (a, c1) \<Rightarrow> deref c1 a)"

definition passes :: "SearchFilters \<Rightarrow> Product \<Rightarrow> bool" where
  "passes f p = list_all (\<lambda>cb. cb p) (active_filters f)"

definition working_set :: "SearchFilters \<Rightarrow> Product list \<Rightarrow> Product list" where
  "working_set f coll =
     (case sort_comparator (sortBy f) of
        None \<Rightarrow> filter (passes f) coll
      | Some cmp \<Rightarrow> js_sort cmp (filter (passes f) coll))"

text \<open>
  The state of the cache when a request has sorted: the cached array is the one that is
  sorted exactly when no filter callback has run.
\<close>

definition cache_after :: "SearchFilters \<Rightarrow> cache \<Rightarrow> cache" where
  "cache_after f c1 =
     (if active_filters f = [] then
        (case sort_comparator (sortBy f) of None \<Rightarrow> c1 | Some cmp \<Rightarrow> map_option (js_sort cmp) c1)
      else c1)"

text \<open>
  What one step of the \<open>forEach\<close> of \<open>getFilterValues\<close> does to one component of its
  accumulator: to a set of strings, to a price bound and to a storage bound.
\<close>

definition add_if :: "(Product \<Rightarrow> string) \<Rightarrow> Product \<Rightarrow> string list \<Rightarrow> string list" where
  "add_if g p l = (if g p \<noteq> [] \<and> trim (g p) \<noteq> [] then set_add (g p) l else l)"

definition price_step :: "(jsnum \<Rightarrow> jsnum \<Rightarrow> jsnum) \<Rightarrow> Product \<Rightarrow> jsnum \<Rightarrow> jsnum" where
  "price_step op p m =
     (if jgt (Product.preco_vista p) (Fin 0) then op m (Product.preco_vista p) else m)"

definition storage_step :: "(jsnum \<Rightarrow> jsnum \<Rightarrow> jsnum) \<Rightarrow> Product \<Rightarrow> jsnum \<Rightarrow> jsnum" where
  "storage_step op p m =
     (case Product.espaco_armazenamento_gb p of None \<Rightarrow> m | Some gb \<Rightarrow> op m gb)"

text \<open>
  Sample data: a raw listing with a name, a price text and a storage text, a catalogue of
  three listings in two sources, and the query that constrains nothing.
\<close>

definition example_raw :: "string \<Rightarrow> string \<Rightarrow> string \<Rightarrow> RawProduct" where
  "example_raw nm price storage =
     \<lparr> RawProduct.preco_vista = price, RawProduct.preco_parcelado = [],
       RawProduct.modelo = ''Slim'', RawProduct.nome_anuncio = nm,
       RawProduct.link_pagina = [], RawProduct.tipo = ''Console'',
       RawProduct.console_type = [], RawProduct.cor = [], RawProduct.com_leitor_disco = ''Sim'',
       RawProduct.espaco_armazenamento = storage, RawProduct.jogos_incluidos = [],
       RawProduct.inclui_controles = ''Sim'', RawProduct.marca = ''Sony'',
       RawProduct.site_origem = ''ml'', RawProduct.data_coleta = [],
       RawProduct.disponibilidade = [] \<rparr>"

definition example_product :: "string \<Rightarrow> jsnum \<Rightarrow> jsnum option \<Rightarrow> string \<Rightarrow> Product" where
  "example_product nm price gb storage =
     \<lparr> Product.preco_vista = price, Product.preco_parcelado = [],
       Product.modelo = ''Slim'', Product.nome_anuncio = nm,
       Product.link_pagina = [], Product.tipo = ''Console'',
       Product.console_type = [], Product.cor = [], Product.com_leitor_disco = ''Sim'',
       Product.espaco_armazenamento = storage, Product.espaco_armazenamento_gb = gb,
       Product.jogos_incluidos = [], Product.inclui_jogos = False,
       Product.inclui_controles = ''Sim'', Product.marca = ''Sony'',
       Product.site_origem = ''ml'', Product.data_coleta = [],
       Product.disponibilidade = [] \<rparr>"

definition example_sources :: sources where
  "example_sources =
     \<lparr> magazineluizaData =
         Some [example_raw ''A'' ''3999.00'' ''825 GB'', example_raw ''B'' ''4.499'' ''1 TB''],
       mercadolivreData = Some [example_raw ''C'' ''449,90'' ''''] \<rparr>"

definition product_A :: Product where
  "product_A = example_product ''A'' (Fin 3999) (Some (Fin 825)) ''825 GB''"

definition product_B :: Product where
  "product_B = example_product ''B'' (Fin 4499) (Some (Fin 1024)) ''1 TB''"

definition product_C :: Product where
  "product_C = example_product ''C'' (Fin (4499 / 10)) None ''''"

definition no_filters :: SearchFilters where
  "no_filters =
     \<lparr> query = None, SearchFilters.precoMin = None, SearchFilters.precoMax = None,
       SearchFilters.modelo = None, SearchFilters.tipo = None, SearchFilters.marca = None,
       SearchFilters.site_origem = None, SearchFilters.inclui_controles = None,
       SearchFilters.inclui_jogos = None, SearchFilters.espacoMin = None,
       SearchFilters.espacoMax = None, sortBy = None, SearchFilters.page = None,
       SearchFilters.limit = None \<rparr>"

text \<open>
  The order of the prices a price sort compares: \<open>-Infinity\<close>, the finite prices, then
  \<open>+Infinity\<close>, as a key in a linear order, and the key of the reverse order.
\<close>

definition price_key :: "jsnum \<Rightarrow> int \<times> rat" where
  "price_key v = (case v of NInf \<Rightarrow> (- 1, 0) | Fin r \<Rightarrow> (0, r) | PInf \<Rightarrow> (1, 0) | NaN \<Rightarrow> (2, 0))"

definition price_key_desc :: "jsnum \<Rightarrow> int \<times> rat" where
  "price_key_desc v = (- fst (price_key v), - snd (price_key v))"

text \<open>The query of the end-to-end example: cheapest first, two records a page.\<close>

definition example_query :: SearchFilters where
  "example_query = no_filters\<lparr>sortBy := Some ''preco_asc'', SearchFilters.limit := Some (Fin 2)\<rparr>"

text \<open>A fourth record, priced as \<open>product_A\<close>, and a collection with that tie.\<close>

definition product_D :: Product where
  "product_D = example_product ''D'' (Fin 3999) None ''''"

definition tie_collection :: "Product list" where
  "tie_collection = [product_A, product_B, product_C, product_D]"

text \<open>Sources of which the second cannot be read.\<close>

definition broken_sources :: sources where
  "broken_sources =
     \<lparr> magazineluizaData = Some [example_raw ''A'' ''3999.00'' ''825 GB''],
       mercadolivreData = None \<rparr>"

text \<open>
  A page number from 1: an integer that is at least 1, or \<open>+Infinity\<close>. The window of a
  page of \<open>l\<close> records in a list: \<open>l\<close> records from position \<open>(page - 1) * l\<close>, cut at the
  end of the list, and nothing for the page \<open>+Infinity\<close>.
\<close>

definition page_from_one :: "jsnum \<Rightarrow> bool" where
  "page_from_one pg =
     (case pg of PInf \<Rightarrow> True | Fin r \<Rightarrow> r = of_int \<lfloor>r\<rfloor> \<and> 1 \<le> r | _ \<Rightarrow> False)"

definition page_window :: "'a list \<Rightarrow> jsnum \<Rightarrow> int \<Rightarrow> 'a list" where
  "page_window ws pg l =
     (case pg of Fin r \<Rightarrow> take (nat l) (drop (nat ((\<lfloor>r\<rfloor> - 1) * l)) ws) | _ \<Rightarrow> [])"

text \<open>A query with an infinite page size, as \<open>parseInt\<close> gives it for 310 digits.\<close>

definition infinite_limit_query :: SearchFilters where
  "infinite_limit_query = no_filters\<lparr>SearchFilters.limit := Some PInf\<rparr>"

section \<open>Properties of the normalizer\<close>

lemmas price_eval =
  normalizePrice_def trim_def is_space_def remove_spaces_def remove_dots_def parseFloat_def
  unsigned_literal_def is_digit_def digits_val_def digit_val_def pow10_def exponent_part_def
  isNaN_def

subsection \<open>The sign of a parsed price\<close>

lemma in_set_trim: "c \<in> set (trim s) \<Longrightarrow> c \<in> set s"
proof -
  assume "c \<in> set (trim s)"
  then have "c \<in> set (dropWhile is_space (rev (dropWhile is_space s)))"
    by (simp add: trim_def)
  then have "c \<in> set (rev (dropWhile is_space s))" by (rule set_dropWhileD)
  then have "c \<in> set (dropWhile is_space s)" by simp
  then show "c \<in> set s" by (rule set_dropWhileD)
qed

lemma set_replace_comma: "set (replace_comma s) \<subseteq> insert (CHR ''.'') (set s)"
  by (induction s) auto

lemma pow10_pos: "0 < pow10 e"
  by (simp add: pow10_def)

lemma literal_value_nonneg:
  "0 \<le> (rat_of_nat a + rat_of_nat b / 10 ^ k) * pow10 e"
  using pow10_pos[of e] by (intro mult_nonneg_nonneg add_nonneg_nonneg divide_nonneg_nonneg) auto

lemma unsigned_literal_nonneg: "unsigned_literal u = Some v \<Longrightarrow> 0 \<le> v"
  unfolding unsigned_literal_def Let_def
  by (auto split: prod.splits if_splits simp: literal_value_nonneg)

lemma parseFloat_unsigned:
  assumes "\<And>r. t \<noteq> CHR ''-'' # r"
  shows "(case t of
            [] \<Rightarrow> (False, t)
          | c # r \<Rightarrow> if c = CHR ''-'' then (True, r)
                     else if c = CHR ''+'' then (False, r) else (False, t)) = (neg, u)
         \<Longrightarrow> \<not> neg"
  using assms by (cases t) (auto split: if_splits)

lemma parseFloat_no_minus:
  assumes "CHR ''-'' \<notin> set s"
  shows "parseFloat s = NaN \<or> jle (Fin 0) (parseFloat s)"
proof -
  define t where "t = dropWhile is_space s"
  have "CHR ''-'' \<notin> set t"
    using assms set_dropWhileD[of "CHR ''-''" is_space s] unfolding t_def by blast
  then have nm: "\<And>r. t \<noteq> CHR ''-'' # r" by auto
  obtain neg u where nu: "(case t of
            [] \<Rightarrow> (False, t)
          | c # r \<Rightarrow> if c = CHR ''-'' then (True, r)
                     else if c = CHR ''+'' then (False, r) else (False, t)) = (neg, u)"
    by (cases "(case t of
            [] \<Rightarrow> (False, t)
          | c # r \<Rightarrow> if c = CHR ''-'' then (True, r)
                     else if c = CHR ''+'' then (False, r) else (False, t))") auto
  have neg: "\<not> neg" using parseFloat_unsigned[OF nm nu] .
  have pf: "parseFloat s = (if prefix ''Infinity'' u then PInf
         else (case unsigned_literal u of None \<Rightarrow> NaN | Some v \<Rightarrow> Fin v))"
    unfolding parseFloat_def Let_def t_def[symmetric] nu using neg by (simp split: option.splits)
  show ?thesis
    unfolding pf by (auto split: option.splits dest: unsigned_literal_nonneg)
qed

lemma cleaned_no_minus:
  assumes "CHR ''-'' \<notin> set s"
  shows "CHR ''-'' \<notin> set (remove_spaces (trim s))"
    and "CHR ''-'' \<notin> set (remove_dots (remove_spaces (trim s)))"
    and "CHR ''-'' \<notin> set (replace_comma (remove_dots (remove_spaces (trim s))))"
proof -
  show a: "CHR ''-'' \<notin> set (remove_spaces (trim s))"
    using assms in_set_trim[of "CHR ''-''" s] by (auto simp: remove_spaces_def)
  then show b: "CHR ''-'' \<notin> set (remove_dots (remove_spaces (trim s)))"
    by (simp add: remove_dots_def)
  then show "CHR ''-'' \<notin> set (replace_comma (remove_dots (remove_spaces (trim s))))"
    using set_replace_comma[of "remove_dots (remove_spaces (trim s))"] by auto
qed

text \<open>
  Claim C3, as amended: \<open>normalizePrice\<close> never returns \<open>NaN\<close>, and on a text without a
  minus sign its result is not negative (it is a non-negative number or \<open>+Infinity\<close>).
\<close>

theorem normalizePrice_number:
  "normalizePrice s \<noteq> NaN \<and> (CHR ''-'' \<notin> set s \<longrightarrow> jle (Fin 0) (normalizePrice s))"
proof
  show "normalizePrice s \<noteq> NaN"
    by (simp add: normalizePrice_def Let_def isNaN_def)
next
  show "CHR ''-'' \<notin> set s \<longrightarrow> jle (Fin 0) (normalizePrice s)"
  proof
    assume nm: "CHR ''-'' \<notin> set s"
    note c = cleaned_no_minus[OF nm]
    show "jle (Fin 0) (normalizePrice s)"
      using parseFloat_no_minus[OF c(1)] parseFloat_no_minus[OF c(2)] parseFloat_no_minus[OF c(3)]
      by (auto simp: normalizePrice_def Let_def isNaN_def)
  qed
qed

theorem normalizePrice_number_witness:
  "normalizePrice ''1.299,90'' \<noteq> NaN \<and> CHR ''-'' \<notin> set ''1.299,90''
   \<and> jle (Fin 0) (normalizePrice ''1.299,90'') \<and> normalizePrice ''1.299,90'' = Fin (12999 / 10)"
proof -
  have h: "CHR ''-'' \<notin> set ''1.299,90''" by simp
  have v: "normalizePrice ''1.299,90'' = Fin (12999 / 10)" by (simp add: price_eval)
  from normalizePrice_number[of "''1.299,90''"] h v show ?thesis by blast
qed

text \<open>
  Claim C3 as stated fails: the text \<open>-5\<close> is parsed to the negative number \<open>-5\<close>.
\<close>

theorem normalizePrice_negative_counterexample:
  "\<not> (\<forall>s. finite_nonneg (normalizePrice s))"
proof
  assume "\<forall>s. finite_nonneg (normalizePrice s)"
  then have "finite_nonneg (normalizePrice ''-5'')" by blast
  moreover have "normalizePrice ''-5'' = Fin (- 5)" by (simp add: price_eval)
  ultimately show False by (simp add: finite_nonneg_def)
qed


subsection \<open>The ordered rules of the price parser\<close>

lemma dropWhile_Nil_list_all: "dropWhile P s = [] \<longleftrightarrow> list_all P s"
  by (simp add: dropWhile_eq_Nil_conv list_all_iff)

lemma trim_Nil_iff: "trim s = [] \<longleftrightarrow> list_all is_space s"
proof
  assume "trim s = []"
  then have a: "\<forall>x \<in> set (dropWhile is_space s). is_space x"
    by (simp add: trim_def dropWhile_eq_Nil_conv)
  have "dropWhile is_space s = []"
  proof (rule ccontr)
    assume ne: "dropWhile is_space s \<noteq> []"
    then have "\<not> is_space (hd (dropWhile is_space s))" by (rule hd_dropWhile)
    moreover have "hd (dropWhile is_space s) \<in> set (dropWhile is_space s)" using ne by simp
    ultimately show False using a by blast
  qed
  then show "list_all is_space s" by (simp only: dropWhile_Nil_list_all)
next
  assume "list_all is_space s"
  then have "dropWhile is_space s = []" by (simp only: dropWhile_Nil_list_all)
  then show "trim s = []" by (simp only: trim_def rev.simps dropWhile.simps)
qed

lemma filter_not_dropWhile: "filter (\<lambda>c. \<not> P c) (dropWhile P s) = filter (\<lambda>c. \<not> P c) s"
  by (induction s) auto

lemma remove_spaces_trim: "remove_spaces (trim s) = remove_spaces s"
proof -
  have "remove_spaces (trim s)
        = rev (filter (\<lambda>c. \<not> is_space c) (dropWhile is_space (rev (dropWhile is_space s))))"
    by (simp add: remove_spaces_def trim_def rev_filter)
  also have "\<dots> = rev (filter (\<lambda>c. \<not> is_space c) (rev (dropWhile is_space s)))"
    by (simp only: filter_not_dropWhile)
  also have "\<dots> = filter (\<lambda>c. \<not> is_space c) (dropWhile is_space s)"
    by (simp add: rev_filter)
  also have "\<dots> = remove_spaces s"
    by (simp add: filter_not_dropWhile remove_spaces_def)
  finally show ?thesis .
qed

lemma split_dot_not_Nil: "split_dot s \<noteq> []"
  by (induction s) (auto split: list.splits)

lemma length_split_dot: "length (split_dot s) = Suc (count_list s (CHR ''.''))"
  using split_dot_not_Nil by (induction s) (auto split: list.splits)

lemma split_dot_no_dot: "CHR ''.'' \<notin> set s \<Longrightarrow> split_dot s = [s]"
  by (induction s) auto

lemma split_dot_second:
  "count_list s (CHR ''.'') = 1 \<Longrightarrow> split_dot s ! Suc 0 = fraction_of s"
proof (induction s)
  case Nil
  then show ?case by simp
next
  case (Cons c cs)
  show ?case
  proof (cases "c = CHR ''.''")
    case True
    with Cons.prems have "count_list cs (CHR ''.'') = 0" by simp
    then have "CHR ''.'' \<notin> set cs" by (simp add: count_list_0_iff)
    then show ?thesis using True by (simp add: split_dot_no_dot fraction_of_def)
  next
    case False
    with Cons.prems have "count_list cs (CHR ''.'') = 1" by simp
    from Cons.IH[OF this] show ?thesis
      using False split_dot_not_Nil[of cs]
      by (cases "split_dot cs") (auto simp: fraction_of_def)
  qed
qed

lemma in_set_tl: "x \<in> set (tl xs) \<Longrightarrow> x \<in> set xs"
  by (cases xs) simp_all

lemma fraction_of_subset: "c \<in> set (fraction_of s) \<Longrightarrow> c \<in> set s"
  unfolding fraction_of_def by (rule set_dropWhileD[OF in_set_tl])

lemma fraction_of_no_dot:
  "count_list s (CHR ''.'') = 1 \<Longrightarrow> CHR ''.'' \<notin> set (fraction_of s)"
proof (induction s)
  case Nil
  then show ?case by simp
next
  case (Cons c cs)
  show ?case
  proof (cases "c = CHR ''.''")
    case True
    with Cons.prems have "count_list cs (CHR ''.'') = 0" by simp
    then show ?thesis using True by (simp add: count_list_0_iff fraction_of_def)
  next
    case False
    with Cons.prems have "count_list cs (CHR ''.'') = 1" by simp
    from Cons.IH[OF this] show ?thesis using False by (simp add: fraction_of_def)
  qed
qed

lemma price_fraction_digits:
  assumes pt: "price_text s" and nc: "CHR '','' \<notin> set (remove_spaces s)"
    and one: "count_list (remove_spaces s) (CHR ''.'') = 1"
  shows "list_all is_digit (fraction_of (remove_spaces s))"
proof -
  {
    fix c assume c: "c \<in> set (fraction_of (remove_spaces s))"
    then have cs: "c \<in> set (remove_spaces s)" by (rule fraction_of_subset)
    then have "c \<in> set s" and nsp: "\<not> is_space c" by (auto simp: remove_spaces_def)
    then have "is_digit c \<or> c = CHR ''.'' \<or> c = CHR '','' \<or> is_space c"
      using pt by (auto simp: price_text_def list_all_iff)
    moreover have "c \<noteq> CHR ''.''" using fraction_of_no_dot[OF one] c by blast
    moreover have "c \<noteq> CHR '',''" using nc cs by blast
    ultimately have "is_digit c" using nsp by blast
  }
  then show ?thesis by (auto simp: list_all_iff)
qed

lemma normalizePrice_unfold:
  "normalizePrice s =
     (if list_all is_space s then Fin 0
      else
        let cleaned = remove_spaces s;
            cleaned' =
              (if CHR '','' \<in> set cleaned then replace_comma (remove_dots cleaned)
               else if CHR ''.'' \<in> set cleaned then
                 (if count_list cleaned (CHR ''.'') = 1 \<and> length (fraction_of cleaned) = 2
                  then cleaned else remove_dots cleaned)
               else cleaned)
        in (case parseFloat cleaned' of NaN \<Rightarrow> Fin 0 | v \<Rightarrow> v))"
proof -
  have blank: "(s = [] \<or> trim s = []) = list_all is_space s"
    using trim_Nil_iff[of s] by auto
  have nan: "\<And>v. (if isNaN v then Fin 0 else v) = (case v of NaN \<Rightarrow> Fin 0 | v \<Rightarrow> v)"
    by (simp add: isNaN_def split: jsnum.splits)
  have parts: "\<And>c. (length (split_dot c) = 2) = (count_list c (CHR ''.'') = 1)"
    by (simp add: length_split_dot)
  show ?thesis
  proof (cases "count_list (remove_spaces s) (CHR ''.'') = 1")
    case True
    show ?thesis
      unfolding normalizePrice_def blank remove_spaces_trim nan Let_def parts
      using True by (simp add: split_dot_second)
  next
    case False
    show ?thesis
      unfolding normalizePrice_def blank remove_spaces_trim nan Let_def parts
      using False by simp
  qed
qed

text \<open>
  Claim C4: the three price strings of the specification have the values it gives, and on
  every price text \<open>normalizePrice\<close> computes what the ordered rules say.
\<close>

theorem normalizePrice_rules:
  "normalizePrice ''3999.00'' = Fin 3999 \<and> normalizePrice ''4.499'' = Fin 4499
   \<and> normalizePrice ''449,90'' = Fin (4499 / 10)
   \<and> (\<forall>s. price_text s \<longrightarrow> normalizePrice s = parsePrice_rules s)"
proof (intro conjI allI impI)
  show "normalizePrice ''3999.00'' = Fin 3999" by (simp add: price_eval)
  show "normalizePrice ''4.499'' = Fin 4499" by (simp add: price_eval)
  show "normalizePrice ''449,90'' = Fin (4499 / 10)" by (simp add: price_eval)
next
  fix s assume pt: "price_text s"
  show "normalizePrice s = parsePrice_rules s"
  proof (cases "CHR '','' \<in> set (remove_spaces s)")
    case True
    then show ?thesis
      by (simp add: normalizePrice_unfold parsePrice_rules_def Let_def remove_spaces_def remove_dots_def)
  next
    case nc: False
    show ?thesis
    proof (cases "count_list (remove_spaces s) (CHR ''.'') = 1")
      case True
      then have "CHR ''.'' \<in> set (remove_spaces s)"
        using count_list_0_iff[of "remove_spaces s" "CHR ''.''"] by auto
      with True nc price_fraction_digits[OF pt nc True] show ?thesis
        by (simp add: normalizePrice_unfold parsePrice_rules_def Let_def remove_dots_def
            remove_spaces_def[symmetric])
    next
      case False
      with nc show ?thesis
        by (simp add: normalizePrice_unfold parsePrice_rules_def Let_def remove_dots_def
            remove_spaces_def[symmetric])
    qed
  qed
qed

theorem normalizePrice_rules_witness:
  "price_text ''1.299'' \<and> normalizePrice ''1.299'' = parsePrice_rules ''1.299''
   \<and> parsePrice_rules ''1.299'' = Fin 1299"
proof -
  have pt: "price_text ''1.299''" by (simp add: price_text_def is_digit_def)
  have v: "parsePrice_rules ''1.299'' = Fin 1299"
    by (simp add: parsePrice_rules_def fraction_of_def price_eval)
  from normalizePrice_rules pt v show ?thesis by blast
qed


subsection \<open>The capacity token of \<open>extractStorageInGB\<close>\<close>

lemma is_digit_not_special:
  assumes "is_digit c"
  shows "\<not> is_space c" "c \<noteq> CHR ''-''" "c \<noteq> CHR ''+''" "c \<noteq> CHR ''.''" "c \<noteq> CHR '',''"
    "c \<noteq> CHR ''I''"
  using assms by (auto simp: is_digit_def is_space_def)

lemma star_rests_split:
  "r \<in> set (star_rests p s) \<Longrightarrow> \<exists>pre. s = pre @ r \<and> list_all p pre"
proof (induction s)
  case Nil
  then show ?case by simp
next
  case (Cons c cs)
  show ?case
  proof (cases "r = c # cs")
    case True
    then show ?thesis by simp
  next
    case False
    with Cons.prems have pc: "p c" and "r \<in> set (star_rests p cs)"
      by (auto split: if_splits)
    then obtain pre where "cs = pre @ r" "list_all p pre" using Cons.IH by blast
    then have "c # cs = (c # pre) @ r \<and> list_all p (c # pre)" using pc by simp
    then show ?thesis by blast
  qed
qed

lemma plus_split:
  assumes "r \<in> set (rx_match (Plus p) s)"
  shows "\<exists>pre. s = pre @ r \<and> pre \<noteq> [] \<and> list_all p pre"
proof (cases s)
  case Nil
  with assms show ?thesis by simp
next
  case (Cons c cs)
  with assms have pc: "p c" and "r \<in> set (star_rests p cs)"
    by (auto split: if_splits)
  then obtain pre where "cs = pre @ r" "list_all p pre" using star_rests_split by blast
  then have "s = (c # pre) @ r \<and> c # pre \<noteq> [] \<and> list_all p (c # pre)"
    using pc Cons by simp
  then show ?thesis by blast
qed

lemma number_group_split:
  assumes "r \<in> set (rx_match number_group s)"
  shows "\<exists>m. s = m @ r \<and> number_token m"
proof -
  let ?sep = "\<lambda>c. c = CHR ''.'' \<or> c = CHR '',''"
  from assms obtain r1 where r1: "r1 \<in> set (rx_match (Plus is_digit) s)"
    and r: "r \<in> set (rx_match (Opt (Seq (Cls ?sep) (Plus is_digit))) r1)"
    by (auto simp: number_group_def)
  from plus_split[OF r1] obtain ds where ds: "s = ds @ r1" "ds \<noteq> []" "list_all is_digit ds"
    by blast
  from r have "r = r1 \<or> r \<in> set (rx_match (Seq (Cls ?sep) (Plus is_digit)) r1)"
    by auto
  then show ?thesis
  proof
    assume "r = r1"
    with ds have "s = ds @ r \<and> number_token ds" by (auto simp: number_token_def)
    then show ?thesis by blast
  next
    assume "r \<in> set (rx_match (Seq (Cls ?sep) (Plus is_digit)) r1)"
    then obtain r2 where r2: "r2 \<in> set (rx_match (Cls ?sep) r1)"
      and rr: "r \<in> set (rx_match (Plus is_digit) r2)"
      by auto
    from r2 obtain sep where sep: "r1 = sep # r2" "?sep sep"
      by (cases r1) (auto split: if_splits)
    from plus_split[OF rr] obtain fs where fs: "r2 = fs @ r" "fs \<noteq> []" "list_all is_digit fs"
      by blast
    have "s = (ds @ sep # fs) @ r" using ds sep fs by simp
    moreover have "number_token (ds @ sep # fs)"
      unfolding number_token_def using ds sep fs by blast
    ultimately show ?thesis by blast
  qed
qed

lemma first_capture_Some:
  "first_capture rest s rs = Some m \<Longrightarrow>
     \<exists>r \<in> set rs. rx_match rest r \<noteq> [] \<and> m = take (length s - length r) s"
  by (induction rs) (auto split: if_splits)

lemma str_match_Some:
  "str_match g rest s = Some m \<Longrightarrow>
     \<exists>pre s' r. s = pre @ s' \<and> r \<in> set (rx_match g s') \<and> rx_match rest r \<noteq> []
        \<and> m = take (length s' - length r) s'"
proof (induction s)
  case Nil
  then have "first_capture rest [] (rx_match g []) = Some m" by simp
  from first_capture_Some[OF this]
  obtain r where r: "r \<in> set (rx_match g [])" "rx_match rest r \<noteq> []"
    "m = take (length ([]::string) - length r) []" by blast
  show ?case
    apply (rule exI[of _ "[]"])
    apply (rule exI[of _ "[]"])
    apply (rule exI[of _ r])
    using r by simp
next
  case (Cons c cs)
  show ?case
  proof (cases "first_capture rest (c # cs) (rx_match g (c # cs))")
    case None
    with Cons.prems have "str_match g rest cs = Some m" by simp
    from Cons.IH[OF this] obtain pre s' r where h:
      "cs = pre @ s'" "r \<in> set (rx_match g s')" "rx_match rest r \<noteq> []"
      "m = take (length s' - length r) s'" by blast
    show ?thesis
      apply (rule exI[of _ "c # pre"])
      apply (rule exI[of _ s'])
      apply (rule exI[of _ r])
      using h by simp
  next
    case (Some m')
    with Cons.prems have "first_capture rest (c # cs) (rx_match g (c # cs)) = Some m" by simp
    from first_capture_Some[OF this]
    obtain r where r: "r \<in> set (rx_match g (c # cs))" "rx_match rest r \<noteq> []"
      "m = take (length (c # cs) - length r) (c # cs)" by blast
    show ?thesis
      apply (rule exI[of _ "[]"])
      apply (rule exI[of _ "c # cs"])
      apply (rule exI[of _ r])
      using r by simp
  qed
qed

text \<open>A match of either pattern is a number followed by what the rest of the pattern matches.\<close>

lemma str_match_number:
  assumes "str_match number_group rest s = Some m"
  shows "\<exists>pre r. s = pre @ m @ r \<and> number_token m \<and> rx_match rest r \<noteq> []"
proof -
  from str_match_Some[OF assms] obtain pre s' r where
    s: "s = pre @ s'" and r: "r \<in> set (rx_match number_group s')"
    and rest: "rx_match rest r \<noteq> []" and m: "m = take (length s' - length r) s'"
    by blast
  from number_group_split[OF r] obtain m' where m': "s' = m' @ r" "number_token m'" by blast
  then have "m = m'" using m by simp
  then have "s = pre @ m @ r \<and> number_token m \<and> rx_match rest r \<noteq> []"
    using s m' rest by simp
  then show ?thesis by (intro exI[of _ pre] exI[of _ r])
qed

lemma replace_comma_id: "CHR '','' \<notin> set s \<Longrightarrow> replace_comma s = s"
  by (induction s) auto

lemma replace_comma_first:
  "CHR '','' \<notin> set ds \<Longrightarrow> replace_comma (ds @ CHR '','' # fs) = ds @ CHR ''.'' # fs"
  by (induction ds) auto

lemma digits_no_comma: "list_all is_digit ds \<Longrightarrow> CHR '','' \<notin> set ds"
  using is_digit_not_special(5) by (auto simp: list_all_iff)

lemma takeWhile_digits: "list_all is_digit ds \<Longrightarrow> \<not> is_digit c \<Longrightarrow>
    takeWhile is_digit (ds @ c # r) = ds \<and> dropWhile is_digit (ds @ c # r) = c # r"
  by (induction ds) auto

lemma takeWhile_all_digits: "list_all is_digit ds \<Longrightarrow>
    takeWhile is_digit ds = ds \<and> dropWhile is_digit ds = []"
  by (induction ds) auto

lemma not_digit_sep: "\<not> is_digit (CHR ''.'')" "\<not> is_digit (CHR '','')"
  by (simp_all add: is_digit_def)

text \<open>\<open>parseFloat\<close> on a text that starts with a digit.\<close>

lemma parseFloat_digit_start:
  assumes "is_digit c"
  shows "parseFloat (c # cs) =
           (case unsigned_literal (c # cs) of None \<Rightarrow> NaN | Some v \<Rightarrow> Fin v)"
proof -
  have "\<not> prefix ''Infinity'' (c # cs)" using is_digit_not_special(6)[OF assms] by simp
  then show ?thesis
    unfolding parseFloat_def Let_def
    using is_digit_not_special[OF assms] by (simp split: option.splits)
qed

lemma unsigned_literal_digits:
  assumes "ds \<noteq> []" "list_all is_digit ds"
  shows "unsigned_literal ds = Some (of_nat (digits_val ds))"
proof -
  note tw = takeWhile_all_digits[OF assms(2), THEN conjunct1]
  note dw = takeWhile_all_digits[OF assms(2), THEN conjunct2]
  have z: "digits_val [] = 0" by (simp add: digits_val_def)
  show ?thesis
    unfolding unsigned_literal_def Let_def tw dw
    using assms(1) by (simp add: exponent_part_def pow10_def z)
qed

lemma unsigned_literal_fraction:
  assumes "ds \<noteq> []" "list_all is_digit ds" "fs \<noteq> []" "list_all is_digit fs"
  shows "unsigned_literal (ds @ CHR ''.'' # fs)
           = Some (of_nat (digits_val ds) + of_nat (digits_val fs) / 10 ^ length fs)"
proof -
  note tw = takeWhile_digits[OF assms(2) not_digit_sep(1), of fs, THEN conjunct1]
  note dw = takeWhile_digits[OF assms(2) not_digit_sep(1), of fs, THEN conjunct2]
  note tf = takeWhile_all_digits[OF assms(4), THEN conjunct1]
  note df = takeWhile_all_digits[OF assms(4), THEN conjunct2]
  show ?thesis
    unfolding unsigned_literal_def Let_def tw dw
    using assms(1) by (simp add: tf df exponent_part_def pow10_def del: takeWhile_eq_all_conv dropWhile_eq_Nil_conv)
qed

lemma token_value_digits:
  assumes "list_all is_digit ds"
  shows "token_value ds = of_nat (digits_val ds)"
proof -
  note tw = takeWhile_all_digits[OF assms, THEN conjunct1]
  have z: "digits_val [] = 0" by (simp add: digits_val_def)
  show ?thesis unfolding token_value_def Let_def tw by (simp add: z)
qed

lemma token_value_fraction:
  assumes "list_all is_digit ds" "\<not> is_digit sep"
  shows "token_value (ds @ sep # fs) = of_nat (digits_val ds) + of_nat (digits_val fs) / 10 ^ length fs"
proof -
  note tw = takeWhile_digits[OF assms, of fs, THEN conjunct1]
  show ?thesis unfolding token_value_def Let_def tw by simp
qed

lemma parseFloat_token:
  assumes "number_token m"
  shows "parseFloat (replace_comma m) = Fin (token_value m)"
proof -
  from assms obtain ds where ds: "ds \<noteq> []" "list_all is_digit ds"
    and m: "m = ds \<or> (\<exists>sep fs. (sep = CHR ''.'' \<or> sep = CHR '','') \<and> fs \<noteq> []
                \<and> list_all is_digit fs \<and> m = ds @ sep # fs)"
    unfolding number_token_def by blast
  obtain d ds' where dd: "ds = d # ds'" "is_digit d" using ds by (cases ds) auto
  from m show ?thesis
  proof
    assume md: "m = ds"
    have "replace_comma m = ds" using md digits_no_comma[OF ds(2)] by (simp add: replace_comma_id)
    then show ?thesis
      using parseFloat_digit_start[OF dd(2), of ds'] unsigned_literal_digits[OF ds]
        token_value_digits[OF ds(2)] md dd(1) by simp
  next
    assume "\<exists>sep fs. (sep = CHR ''.'' \<or> sep = CHR '','') \<and> fs \<noteq> []
                \<and> list_all is_digit fs \<and> m = ds @ sep # fs"
    then obtain sep fs where sep: "sep = CHR ''.'' \<or> sep = CHR '',''"
      and fs: "fs \<noteq> []" "list_all is_digit fs" and mf: "m = ds @ sep # fs" by blast
    have nd: "\<not> is_digit sep" using sep not_digit_sep by auto
    have rc: "replace_comma m = ds @ CHR ''.'' # fs"
    proof (cases "sep = CHR '',''")
      case True
      then show ?thesis using mf digits_no_comma[OF ds(2)] by (simp add: replace_comma_first)
    next
      case False
      with sep have "sep = CHR ''.''" by simp
      moreover have "CHR '','' \<notin> set m"
        using mf digits_no_comma[OF ds(2)] digits_no_comma[OF fs(2)] False by simp
      ultimately show ?thesis using mf by (simp add: replace_comma_id)
    qed
    have "parseFloat (ds @ CHR ''.'' # fs) =
            Fin (of_nat (digits_val ds) + of_nat (digits_val fs) / 10 ^ length fs)"
      using parseFloat_digit_start[OF dd(2), of "ds' @ CHR ''.'' # fs"]
        unsigned_literal_fraction[OF ds fs] dd(1) by simp
    then show ?thesis
      using rc token_value_fraction[OF ds(2) nd, of fs] mf by simp
  qed
qed

lemma number_token_digit:
  assumes "number_token m"
  shows "\<exists>c \<in> set m. is_digit c"
proof -
  from assms obtain ds where ds: "ds \<noteq> []" "list_all is_digit ds"
    and m: "m = ds \<or> (\<exists>sep fs. (sep = CHR ''.'' \<or> sep = CHR '','') \<and> fs \<noteq> []
                \<and> list_all is_digit fs \<and> m = ds @ sep # fs)"
    unfolding number_token_def by blast
  from m have sub: "set ds \<subseteq> set m" by auto
  with ds have "hd ds \<in> set m" "is_digit (hd ds)" by (auto simp: list_all_iff)
  then show ?thesis by blast
qed

lemma str_match_not_blank:
  assumes "str_match number_group rest s = Some m"
  shows "\<not> (s = [] \<or> trim s = [])"
proof -
  from str_match_number[OF assms] obtain pre r where
    s: "s = pre @ m @ r" and nt: "number_token m" by blast
  from number_token_digit[OF nt] obtain c where c: "c \<in> set m" "is_digit c" by blast
  then have "c \<in> set s" "\<not> is_space c" using s is_digit_not_special(1) by auto
  then have "\<not> list_all is_space s" by (auto simp: list_all_iff)
  then show ?thesis using trim_Nil_iff[of s] by auto
qed

lemma has_unit_token_Cons: "has_unit_token r \<Longrightarrow> has_unit_token (c # r)"
  by (cases r) auto

lemma has_unit_token_append: "has_unit_token r \<Longrightarrow> has_unit_token (pre @ r)"
  by (induction pre) (auto intro: has_unit_token_Cons)

lemma unit_tail_token:
  assumes "rx_match (Seq (Star is_space) (Seq (Cls (ci u1 u2)) (Cls (ci CHR ''B'' CHR ''b'')))) r \<noteq> []"
    and "u1 = CHR ''T'' \<or> u1 = CHR ''G''" "u2 = CHR ''t'' \<or> u2 = CHR ''g''"
  shows "has_unit_token r"
proof -
  from assms(1) obtain r1 where r1: "r1 \<in> set (star_rests is_space r)"
    and nz: "rx_match (Seq (Cls (ci u1 u2)) (Cls (ci CHR ''B'' CHR ''b''))) r1 \<noteq> []"
    by auto
  from star_rests_split[OF r1] obtain pre where pre: "r = pre @ r1" by blast
  from nz obtain a b cs where "r1 = a # b # cs" "ci u1 u2 a" "ci CHR ''B'' CHR ''b'' b"
    by (cases r1; cases "tl r1") (auto split: if_splits)
  then have "has_unit_token r1" using assms(2,3) by (auto simp: ci_def)
  then show ?thesis using pre has_unit_token_append by simp
qed

lemma str_match_unit:
  assumes "str_match number_group rest s = Some m" "rest = TB_tail \<or> rest = GB_tail"
  shows "has_unit_token s"
proof -
  from str_match_number[OF assms(1)] obtain pre r where
    s: "s = pre @ m @ r" and nz: "rx_match rest r \<noteq> []" by blast
  have "has_unit_token r"
    using assms(2) nz unit_tail_token[of _ _ r] unfolding TB_tail_def GB_tail_def by blast
  then have "has_unit_token (pre @ m @ r)"
    using has_unit_token_append[of "m @ r" pre] has_unit_token_append[of r m] by simp
  then show ?thesis using s by simp
qed

lemmas storage_eval =
  extractStorageInGB_def patterns_def number_group_def TB_tail_def GB_tail_def ci_def trim_def
  is_space_def is_digit_def parseFloat_def unsigned_literal_def digits_val_def digit_val_def
  pow10_def exponent_part_def isNaN_def

text \<open>
  Claim C5: the three storage strings of the specification have the values it gives. The
  TB pattern goes first: when it matches, its number, read with the separator as the
  decimal point, times 1024 is the result whatever the GB pattern would find; otherwise
  a match of the GB pattern gives its number; and a text with no unit token gives
  \<open>None\<close>, not zero.
\<close>

theorem extractStorageInGB_token:
  "extractStorageInGB ''825 GB'' = Some (Fin 825)
   \<and> extractStorageInGB ''1 TB'' = Some (Fin 1024)
   \<and> extractStorageInGB ''1TB'' = Some (Fin 1024)
   \<and> extractStorageInGB ''500 GB, 1,5 TB'' = Some (Fin 1536)
   \<and> (\<forall>s m. str_match number_group TB_tail s = Some m
         \<longrightarrow> extractStorageInGB s = Some (Fin (token_value m * 1024)))
   \<and> (\<forall>s m. str_match number_group TB_tail s = None \<and> str_match number_group GB_tail s = Some m
         \<longrightarrow> extractStorageInGB s = Some (Fin (token_value m)))
   \<and> (\<forall>s. \<not> has_unit_token s \<longrightarrow> extractStorageInGB s = None)"
proof (intro conjI allI impI)
  show "extractStorageInGB ''825 GB'' = Some (Fin 825)" by (simp add: storage_eval)
  show "extractStorageInGB ''1 TB'' = Some (Fin 1024)" by (simp add: storage_eval)
  show "extractStorageInGB ''1TB'' = Some (Fin 1024)" by (simp add: storage_eval)
  show "extractStorageInGB ''500 GB, 1,5 TB'' = Some (Fin 1536)" by (simp add: storage_eval)
next
  fix s m assume tb: "str_match number_group TB_tail s = Some m"
  from str_match_number[OF tb] have nt: "number_token m" by blast
  show "extractStorageInGB s = Some (Fin (token_value m * 1024))"
    using str_match_not_blank[OF tb] tb parseFloat_token[OF nt]
    by (simp add: extractStorageInGB_def patterns_def isNaN_def)
next
  fix s m
  assume h: "str_match number_group TB_tail s = None \<and> str_match number_group GB_tail s = Some m"
  then have gb: "str_match number_group GB_tail s = Some m" by simp
  from str_match_number[OF gb] have nt: "number_token m" by blast
  show "extractStorageInGB s = Some (Fin (token_value m))"
    using str_match_not_blank[OF gb] h parseFloat_token[OF nt]
    by (simp add: extractStorageInGB_def patterns_def isNaN_def)
next
  fix s assume nu: "\<not> has_unit_token s"
  have "str_match number_group TB_tail s = None"
    using str_match_unit[of TB_tail s] nu by (cases "str_match number_group TB_tail s") auto
  moreover have "str_match number_group GB_tail s = None"
    using str_match_unit[of GB_tail s] nu by (cases "str_match number_group GB_tail s") auto
  ultimately show "extractStorageInGB s = None"
    by (simp add: extractStorageInGB_def patterns_def)
qed

theorem extractStorageInGB_token_witness:
  "str_match number_group TB_tail ''SSD 2 TB'' = Some ''2''
   \<and> extractStorageInGB ''SSD 2 TB'' = Some (Fin 2048)
   \<and> str_match number_group TB_tail ''825GB'' = None
   \<and> str_match number_group GB_tail ''825GB'' = Some ''825''
   \<and> extractStorageInGB ''825GB'' = Some (Fin 825)
   \<and> \<not> has_unit_token ''Disco 1000'' \<and> extractStorageInGB ''Disco 1000'' = None"
proof -
  have a: "str_match number_group TB_tail ''SSD 2 TB'' = Some ''2''"
    by (simp add: storage_eval)
  have b: "str_match number_group TB_tail ''825GB'' = None"
    by (simp add: storage_eval)
  have c: "str_match number_group GB_tail ''825GB'' = Some ''825''"
    by (simp add: storage_eval)
  have d: "\<not> has_unit_token ''Disco 1000''" by simp
  have v1: "token_value ''2'' * 1024 = 2048" by (simp add: token_value_def storage_eval)
  have v2: "token_value ''825'' = 825" by (simp add: token_value_def storage_eval)
  note rest = extractStorageInGB_token[THEN conjunct2, THEN conjunct2, THEN conjunct2,
      THEN conjunct2]
  have e1: "extractStorageInGB ''SSD 2 TB'' = Some (Fin 2048)"
    using rest[THEN conjunct1, rule_format, OF a] v1 by simp
  have e2: "extractStorageInGB ''825GB'' = Some (Fin 825)"
    using rest[THEN conjunct2, THEN conjunct1, rule_format, OF conjI[OF b c]] v2 by simp
  have e3: "extractStorageInGB ''Disco 1000'' = None"
    using rest[THEN conjunct2, THEN conjunct2, rule_format, OF d] .
  show ?thesis using a b c d e1 e2 e3 by simp
qed

section \<open>Properties of the catalog and the query engine\<close>

subsection \<open>What a request computes\<close>

lemma loadProducts_cached: "loadProducts src (Some xs) = (Cached, Some xs)"
  by (simp add: loadProducts_def)

lemma loadProducts_cases:
  "(\<exists>xs. loadProducts src c = (Cached, Some xs)) \<or> (c = None \<and> loadProducts src c = (Local [], None))"
  by (cases c; cases "read_and_normalize src") (auto simp: loadProducts_def)

lemma deref_filters:
  "deref c (foldl (array_filter c) a cbs) = filter (\<lambda>p. list_all (\<lambda>cb. cb p) cbs) (deref c a)"
proof (induction cbs arbitrary: a)
  case Nil
  then show ?case by simp
next
  case (Cons cb cbs)
  have step: "deref c (array_filter c a cb) = filter cb (deref c a)"
    by (simp add: array_filter_def deref_def)
  have "deref c (foldl (array_filter c) (array_filter c a cb) cbs)
        = filter (\<lambda>p. list_all (\<lambda>cb. cb p) cbs) (filter cb (deref c a))"
    unfolding Cons.IH[of "array_filter c a cb"] step ..
  then show ?case by (simp add: conj_commute)
qed

lemma deref_apply_filters: "deref c (apply_filters f c a) = filter (passes f) (deref c a)"
  unfolding apply_filters_def deref_filters passes_def ..

lemma foldl_array_filter_Local:
  "cbs \<noteq> [] \<Longrightarrow> \<exists>xs. foldl (array_filter c) a cbs = Local xs"
proof (induction cbs arbitrary: a)
  case Nil
  then show ?case by simp
next
  case (Cons cb cbs)
  show ?case
  proof (cases cbs)
    case Nil
    then show ?thesis by (simp add: array_filter_def)
  next
    case (Cons cb' cbs')
    then have "cbs \<noteq> []" by simp
    from Cons.IH[OF this] show ?thesis by simp
  qed
qed

lemma apply_filters_none: "active_filters f = [] \<Longrightarrow> apply_filters f c a = a"
  by (simp add: apply_filters_def)

lemma apply_filters_some: "active_filters f \<noteq> [] \<Longrightarrow> \<exists>xs. apply_filters f c a = Local xs"
  unfolding apply_filters_def by (rule foldl_array_filter_Local)

lemma deref_sort_stage:
  "deref (snd (sort_stage sb c a)) (fst (sort_stage sb c a))
     = (case sort_comparator sb of None \<Rightarrow> deref c a | Some cmp \<Rightarrow> js_sort cmp (deref c a))"
  by (cases a; cases c; cases "sort_comparator sb")
     (simp_all add: sort_stage_def array_sort_def deref_def js_sort_def)

lemma cache_sort_stage:
  "snd (sort_stage sb c a)
     = (case a of
          Local xs \<Rightarrow> c
        | Cached \<Rightarrow> (case sort_comparator sb of None \<Rightarrow> c | Some cmp \<Rightarrow> map_option (js_sort cmp) c))"
  by (cases a; cases "sort_comparator sb") (simp_all add: sort_stage_def array_sort_def)

text \<open>The array that is sorted and sliced holds the working set of the query.\<close>

lemma sorted_array_working_set:
  assumes "loadProducts src c = (a, c1)"
  shows "deref (snd (sort_stage (sortBy f) c1 (apply_filters f c1 a)))
               (fst (sort_stage (sortBy f) c1 (apply_filters f c1 a)))
           = working_set f (collection src c)"
proof -
  have coll: "collection src c = deref c1 a" using assms by (simp add: collection_def)
  show ?thesis
    unfolding deref_sort_stage deref_apply_filters working_set_def coll ..
qed

lemma insort_cmp_length: "length (insort_cmp cmp x ys) = Suc (length ys)"
  by (induction ys) auto

lemma js_sort_length: "length (js_sort cmp xs) = length xs"
  unfolding js_sort_def by (induction xs) (auto simp: insort_cmp_length)

lemma insort_cmp_mset: "mset (insort_cmp cmp x ys) = add_mset x (mset ys)"
  by (induction ys) auto

lemma js_sort_mset: "mset (js_sort cmp xs) = mset xs"
  unfolding js_sort_def by (induction xs) (auto simp: insort_cmp_mset)

lemma working_set_length: "length (working_set f coll) = length (filter (passes f) coll)"
  by (simp add: working_set_def js_sort_length split: option.splits)

lemma cache_after_stage:
  assumes "loadProducts src c = (a, c1)"
  shows "snd (sort_stage (sortBy f) c1 (apply_filters f c1 a)) = cache_after f c1"
proof (cases "active_filters f = []")
  case True
  from loadProducts_cases[of src c] assms
  have "a = Cached \<or> (a = Local [] \<and> c1 = None)" by auto
  then show ?thesis
    using True by (auto simp: cache_sort_stage apply_filters_none cache_after_def split: option.splits)
next
  case False
  from apply_filters_some[OF False, of c1 a] obtain xs where "apply_filters f c1 a = Local xs" ..
  then show ?thesis using False by (simp add: cache_sort_stage cache_after_def)
qed

lemma GET_unfold:
  assumes "loadProducts src c = (a, c1)"
  shows "GET src c f =
     (let ws = working_set f (collection src c);
          page = or_default (SearchFilters.page f) (Fin 1);
          limit = or_default (SearchFilters.limit f) (Fin 20);
          c2 = cache_after f c1
      in (\<lparr> products = slice ws (jmul (jsub page (Fin 1)) limit)
                          (jadd (jmul (jsub page (Fin 1)) limit) limit),
             total = int (length ws),
             page = page,
             limit = limit,
             totalPages = Math_ceil (jdiv (Fin (of_nat (length ws))) limit),
             filters = getFilterValues (deref (snd (loadProducts src c2)) (fst (loadProducts src c2))) \<rparr>,
          snd (loadProducts src c2)))"
proof -
  obtain sa c2 where st: "sort_stage (sortBy f) c1 (apply_filters f c1 a) = (sa, c2)"
    by (cases "sort_stage (sortBy f) c1 (apply_filters f c1 a)") auto
  have ws: "deref c2 sa = working_set f (collection src c)"
    using sorted_array_working_set[OF assms, of f] st by simp
  have ca: "cache_after f c1 = c2" using cache_after_stage[OF assms, of f] st by simp
  obtain al c3 where ld: "loadProducts src c2 = (al, c3)"
    by (cases "loadProducts src c2") auto
  show ?thesis
    unfolding GET_def assms Let_def prod.case st ws ca ld by simp
qed

lemma GET_cache:
  assumes "loadProducts src c = (a, c1)"
  shows "snd (GET src c f) = snd (loadProducts src (cache_after f c1))"
  unfolding GET_unfold[OF assms] Let_def by simp

lemma GET_products_window:
  assumes "loadProducts src c = (a, c1)"
  shows "products (fst (GET src c f))
     = slice (working_set f (collection src c))
         (jmul (jsub (or_default (SearchFilters.page f) (Fin 1)) (Fin 1))
            (or_default (SearchFilters.limit f) (Fin 20)))
         (jadd (jmul (jsub (or_default (SearchFilters.page f) (Fin 1)) (Fin 1))
                  (or_default (SearchFilters.limit f) (Fin 20)))
            (or_default (SearchFilters.limit f) (Fin 20)))"
  unfolding GET_unfold[OF assms] Let_def by simp

subsection \<open>Pagination\<close>

lemma take_min_length: "take (min a (length ys)) ys = take a ys"
  by (simp add: min_def)

lemma ToIntegerOrInfinity_int:
  "0 \<le> i \<Longrightarrow> ToIntegerOrInfinity (Fin (of_int i)) = Integer i"
  by simp

lemma slice_window:
  assumes "0 \<le> start" "0 \<le> l"
  shows "slice xs (Fin (of_int start)) (Fin (of_int (start + l)))
           = take (nat l) (drop (nat start) xs)"
proof -
  have e: "0 \<le> start + l" using assms by simp
  have s: "slice xs (Fin (of_int start)) (Fin (of_int (start + l)))
        = take (nat (min (start + l) (int (length xs))) - nat (min start (int (length xs))))
            (drop (nat (min start (int (length xs)))) xs)"
    unfolding slice_def Let_def ToIntegerOrInfinity_int[OF assms(1)] ToIntegerOrInfinity_int[OF e]
    using assms by (simp add: relative_index_def)
  show ?thesis
  proof (cases "start \<le> int (length xs)")
    case True
    have n: "nat (min (start + l) (int (length xs))) - nat start
               = min (nat l) (length (drop (nat start) xs))"
      using assms True by (simp add: min_def) linarith
    have k: "nat (min start (int (length xs))) = nat start" using True by (simp add: min_absorb1)
    show ?thesis unfolding s k n by (rule take_min_length)
  next
    case False
    then show ?thesis unfolding s using assms by (simp add: min_absorb2)
  qed
qed

lemma slice_beyond: "slice xs PInf PInf = []"
  by (simp add: slice_def relative_index_def)

lemma page_lengths_sum:
  fixes n l :: nat
  shows "n \<le> T * l \<Longrightarrow> (\<Sum>i<T. min l (n - i * l)) = n"
proof (induction T arbitrary: n)
  case 0
  then show ?case by simp
next
  case (Suc T)
  have rest: "n - l \<le> T * l" using Suc.prems by simp
  have shift: "(\<Sum>i<Suc T. min l (n - i * l))
                = min l (n - 0 * l) + (\<Sum>i<T. min l (n - Suc i * l))"
    by (rule sum.lessThan_Suc_shift)
  have "(\<Sum>i<T. min l (n - Suc i * l)) = (\<Sum>i<T. min l ((n - l) - i * l))"
    by (rule sum.cong) (simp_all add: diff_diff_left)
  also have "\<dots> = n - l" by (rule Suc.IH[OF rest])
  finally have "(\<Sum>i<Suc T. min l (n - i * l)) = min l n + (n - l)"
    unfolding shift by simp
  then show ?case by simp
qed

lemma ceiling_pages_cover:
  fixes n :: nat and l :: int
  assumes "0 < l"
  shows "0 \<le> \<lceil>rat_of_nat n / rat_of_int l\<rceil>"
    and "n \<le> nat \<lceil>rat_of_nat n / rat_of_int l\<rceil> * nat l"
proof -
  let ?T = "\<lceil>rat_of_nat n / rat_of_int l\<rceil>"
  have nn: "0 \<le> rat_of_nat n / rat_of_int l" using assms by simp
  have "(0::rat) \<le> of_int ?T" by (rule order_trans[OF nn le_of_int_ceiling])
  then show T0: "0 \<le> ?T" by simp
  have lp: "0 < rat_of_int l" using assms by simp
  have "rat_of_nat n / rat_of_int l \<le> rat_of_int ?T" by (rule le_of_int_ceiling)
  then have "rat_of_nat n \<le> rat_of_int ?T * rat_of_int l"
    by (rule pos_divide_le_eq[OF lp, THEN iffD1])
  then have "rat_of_int (int n) \<le> rat_of_int (?T * l)" by simp
  then have "int n \<le> ?T * l" by (simp only: of_int_le_iff)
  then have "nat (int n) \<le> nat (?T * l)" by (rule nat_mono)
  then show "n \<le> nat ?T * nat l" unfolding nat_mult_distrib[OF T0] by simp
qed

lemma active_filters_page [simp]:
  "active_filters (f\<lparr>SearchFilters.page := q\<rparr>) = active_filters f"
  by (simp add: active_filters_def filter_steps_def)

lemma passes_page [simp]: "passes (f\<lparr>SearchFilters.page := q\<rparr>) = passes f"
  by (simp add: passes_def fun_eq_iff)

lemma working_set_page [simp]:
  "working_set (f\<lparr>SearchFilters.page := q\<rparr>) coll = working_set f coll"
  unfolding working_set_def passes_page by simp

lemma active_filters_limit [simp]:
  "active_filters (f\<lparr>SearchFilters.limit := q\<rparr>) = active_filters f"
  by (simp add: active_filters_def filter_steps_def)

lemma passes_limit [simp]: "passes (f\<lparr>SearchFilters.limit := q\<rparr>) = passes f"
  by (simp add: passes_def fun_eq_iff)

lemma working_set_limit [simp]:
  "working_set (f\<lparr>SearchFilters.limit := q\<rparr>) coll = working_set f coll"
  unfolding working_set_def passes_limit by simp

text \<open>The window that the handler cuts, for a page from 1 and a positive integer size.\<close>

lemma handler_window:
  assumes "page_from_one pg" "0 < l"
  shows "slice ws (jmul (jsub pg (Fin 1)) (Fin (of_int l)))
                  (jadd (jmul (jsub pg (Fin 1)) (Fin (of_int l))) (Fin (of_int l)))
           = page_window ws pg l"
proof (cases pg)
  case (Fin r)
  with assms(1) have r: "r = of_int \<lfloor>r\<rfloor>" "1 \<le> r" by (simp_all add: page_from_one_def)
  define p where "p = \<lfloor>r\<rfloor>"
  have rp: "r = of_int p" using r(1) p_def by simp
  have p1: "1 \<le> p" using r(2) unfolding rp by simp
  have st: "0 \<le> (p - 1) * l" using p1 assms(2) by simp
  have a: "jmul (jsub pg (Fin 1)) (Fin (of_int l)) = Fin (of_int ((p - 1) * l))"
    unfolding Fin rp by simp
  have b: "jadd (Fin (of_int ((p - 1) * l))) (Fin (of_int l)) = Fin (of_int ((p - 1) * l + l))"
    by simp
  have "slice ws (Fin (of_int ((p - 1) * l))) (Fin (of_int ((p - 1) * l + l)))
          = take (nat l) (drop (nat ((p - 1) * l)) ws)"
    using slice_window[OF st, of l ws] assms(2) by simp
  then show ?thesis
    unfolding a b by (simp add: page_window_def Fin p_def)
next
  case PInf
  have "jmul (jsub PInf (Fin 1)) (Fin (of_int l)) = PInf" using assms(2) by simp
  then show ?thesis unfolding PInf by (simp add: slice_beyond page_window_def)
next
  case NaN
  with assms(1) show ?thesis by (simp add: page_from_one_def)
next
  case NInf
  with assms(1) show ?thesis by (simp add: page_from_one_def)
qed

lemma GET_products:
  assumes "page_from_one (or_default (SearchFilters.page f) (Fin 1))"
    and "or_default (SearchFilters.limit f) (Fin 20) = Fin (of_int l)" and "0 < l"
  shows "products (fst (GET src c f))
           = page_window (working_set f (collection src c)) (or_default (SearchFilters.page f) (Fin 1)) l"
proof -
  obtain a c1 where ld: "loadProducts src c = (a, c1)" by (cases "loadProducts src c") auto
  show ?thesis
    unfolding GET_unfold[OF ld] Let_def assms(2)
    using handler_window[OF assms(1,3)] by simp
qed

lemma GET_total: "total (fst (GET src c f)) = int (length (filter (passes f) (collection src c)))"
proof -
  obtain a c1 where ld: "loadProducts src c = (a, c1)" by (cases "loadProducts src c") auto
  show ?thesis unfolding GET_unfold[OF ld] Let_def by (simp add: working_set_length)
qed

lemma GET_totalPages:
  assumes "or_default (SearchFilters.limit f) (Fin 20) = Fin (of_int l)" and "0 < l"
  shows "totalPages (fst (GET src c f))
     = Fin (of_int \<lceil>rat_of_int (total (fst (GET src c f))) / rat_of_int l\<rceil>)"
proof -
  obtain a c1 where ld: "loadProducts src c = (a, c1)" by (cases "loadProducts src c") auto
  show ?thesis unfolding GET_unfold[OF ld] Let_def assms(1) using assms(2) by simp
qed

lemma sum_from_one:
  fixes g :: "int \<Rightarrow> int"
  shows "(\<Sum>q = 1..T. g q) = (\<Sum>i<nat T. g (int i + 1))"
  by (rule sum.reindex_bij_witness[where i = "\<lambda>i. int i + 1" and j = "\<lambda>q. nat (q - 1)"]) auto

lemma pages_sum:
  fixes ws :: "'a list"
  assumes "0 < l"
  shows "(\<Sum>q = 1..\<lceil>rat_of_nat (length ws) / rat_of_int l\<rceil>.
            int (length (take (nat l) (drop (nat ((q - 1) * l)) ws)))) = int (length ws)"
proof -
  let ?n = "length ws"
  let ?T = "\<lceil>rat_of_nat ?n / rat_of_int l\<rceil>"
  note cov = ceiling_pages_cover[OF assms, of ?n]
  have "(\<Sum>q = 1..?T. int (length (take (nat l) (drop (nat ((q - 1) * l)) ws))))
          = (\<Sum>i<nat ?T. int (length (take (nat l) (drop (nat ((int i + 1 - 1) * l)) ws))))"
    by (rule sum_from_one)
  also have "\<dots> = (\<Sum>i<nat ?T. int (min (nat l) (?n - i * nat l)))"
    using assms by (intro sum.cong) (simp_all add: nat_mult_distrib)
  also have "\<dots> = int (\<Sum>i<nat ?T. min (nat l) (?n - i * nat l))" by simp
  also have "\<dots> = int ?n" using page_lengths_sum[OF cov(2)] by simp
  finally show ?thesis .
qed

lemma page_window_empty:
  assumes "page_from_one pg" "0 < l"
  shows "(page_window ws pg l = [])
           = jle (Fin (of_int (int (length ws)))) (jmul (jsub pg (Fin 1)) (Fin (of_int l)))"
proof (cases pg)
  case (Fin r)
  with assms(1) have r: "r = of_int \<lfloor>r\<rfloor>" "1 \<le> r" by (simp_all add: page_from_one_def)
  define p where "p = \<lfloor>r\<rfloor>"
  have rp: "r = of_int p" using r(1) p_def by simp
  have p1: "1 \<le> p" using r(2) unfolding rp by simp
  have st: "0 \<le> (p - 1) * l" using p1 assms(2) by simp
  have a: "jmul (jsub pg (Fin 1)) (Fin (of_int l)) = Fin (of_int ((p - 1) * l))"
    unfolding Fin rp by simp
  have k: "(int (length ws) \<le> (p - 1) * l) = (length ws \<le> nat ((p - 1) * l))"
    using st by linarith
  have "(page_window ws pg l = []) = (length ws \<le> nat ((p - 1) * l))"
    unfolding Fin page_window_def using assms(2) by (auto simp: p_def)
  also have "\<dots> = (rat_of_int (int (length ws)) \<le> rat_of_int ((p - 1) * l))"
    unfolding k[symmetric] by (simp only: of_int_le_iff)
  finally show ?thesis unfolding a by simp
next
  case PInf
  have "jmul (jsub PInf (Fin 1)) (Fin (of_int l)) = PInf" using assms(2) by simp
  then show ?thesis unfolding PInf by (simp add: page_window_def)
next
  case NaN
  with assms(1) show ?thesis by (simp add: page_from_one_def)
next
  case NInf
  with assms(1) show ?thesis by (simp add: page_from_one_def)
qed

text \<open>
  Claim C6, as amended: for a page number from 1 (an integer, or \<open>+Infinity\<close>) and a page
  size that is a positive integer, the total is the number of records that pass the
  filters, the page count is the ceiling of total over size, the page is the window
  \<open>[(page-1)*size, (page-1)*size + size)\<close> of the working set cut at its end, empty
  exactly when the window starts at or beyond the end, the pages from 1 to the page count
  together hold \<open>total\<close> records, and the total is at most the size of the collection.
\<close>

theorem pagination:
  assumes "page_from_one (or_default (SearchFilters.page f) (Fin 1))"
    and "or_default (SearchFilters.limit f) (Fin 20) = Fin (of_int l)"
    and "0 < l"
  shows "total (fst (GET src c f)) = int (length (filter (passes f) (collection src c)))
    \<and> totalPages (fst (GET src c f))
        = Fin (of_int \<lceil>rat_of_int (total (fst (GET src c f))) / rat_of_int l\<rceil>)
    \<and> products (fst (GET src c f))
        = page_window (working_set f (collection src c)) (or_default (SearchFilters.page f) (Fin 1)) l
    \<and> (products (fst (GET src c f)) = [])
        = jle (Fin (of_int (total (fst (GET src c f)))))
              (jmul (jsub (or_default (SearchFilters.page f) (Fin 1)) (Fin 1)) (Fin (of_int l)))
    \<and> (\<Sum>q = 1..\<lceil>rat_of_int (total (fst (GET src c f))) / rat_of_int l\<rceil>.
          int (length (products (fst (GET src c (f\<lparr>SearchFilters.page := Some (Fin (of_int q))\<rparr>))))))
        = total (fst (GET src c f))
    \<and> total (fst (GET src c f)) \<le> int (length (collection src c))"
proof -
  let ?pg = "or_default (SearchFilters.page f) (Fin 1)"
  let ?ws = "working_set f (collection src c)"
  have tot: "total (fst (GET src c f)) = int (length ?ws)"
    by (simp add: GET_total working_set_length)
  have prods: "products (fst (GET src c f)) = page_window ?ws ?pg l"
    by (rule GET_products[OF assms])
  have range: "(products (fst (GET src c f)) = [])
        = jle (Fin (of_int (total (fst (GET src c f))))) (jmul (jsub ?pg (Fin 1)) (Fin (of_int l)))"
    unfolding tot prods by (rule page_window_empty[OF assms(1,3)])
  have page_q: "products (fst (GET src c (f\<lparr>SearchFilters.page := Some (Fin (of_int q))\<rparr>)))
                  = take (nat l) (drop (nat ((q - 1) * l)) ?ws)" if "1 \<le> q" for q
  proof -
    have od: "or_default (SearchFilters.page (f\<lparr>SearchFilters.page := Some (Fin (of_int q))\<rparr>)) (Fin 1)
                = Fin (of_int q)"
      using that by (simp add: or_default_def)
    have pf: "page_from_one (Fin (of_int q))" using that by (simp add: page_from_one_def)
    have "products (fst (GET src c (f\<lparr>SearchFilters.page := Some (Fin (of_int q))\<rparr>)))
            = page_window ?ws (Fin (of_int q)) l"
      using GET_products[of "f\<lparr>SearchFilters.page := Some (Fin (of_int q))\<rparr>" l src c]
      unfolding od using pf assms(2,3) by simp
    then show ?thesis by (simp add: page_window_def)
  qed
  have tp: "\<lceil>rat_of_int (total (fst (GET src c f))) / rat_of_int l\<rceil>
              = \<lceil>rat_of_nat (length ?ws) / rat_of_int l\<rceil>"
    unfolding tot by simp
  have "(\<Sum>q = 1..\<lceil>rat_of_int (total (fst (GET src c f))) / rat_of_int l\<rceil>.
          int (length (products (fst (GET src c (f\<lparr>SearchFilters.page := Some (Fin (of_int q))\<rparr>))))))
        = (\<Sum>q = 1..\<lceil>rat_of_int (total (fst (GET src c f))) / rat_of_int l\<rceil>.
             int (length (take (nat l) (drop (nat ((q - 1) * l)) ?ws))))"
    by (rule sum.cong) (simp_all add: page_q)
  also have "\<dots> = int (length ?ws)" unfolding tp by (rule pages_sum[OF assms(3)])
  finally have sum: "(\<Sum>q = 1..\<lceil>rat_of_int (total (fst (GET src c f))) / rat_of_int l\<rceil>.
          int (length (products (fst (GET src c (f\<lparr>SearchFilters.page := Some (Fin (of_int q))\<rparr>))))))
        = total (fst (GET src c f))" using tot by simp
  have le: "total (fst (GET src c f)) \<le> int (length (collection src c))"
    unfolding GET_total by simp
  show ?thesis
    using GET_total GET_totalPages[OF assms(2,3)] prods range sum le by blast
qed

subsection \<open>Facets\<close>

text \<open>The components of the accumulator of \<open>getFilterValues\<close>, each as a fold of its own.\<close>

lemma add_if_set:
  "set (add_if g p l) = set l \<union> (if trim (g p) \<noteq> [] then {g p} else {})"
proof -
  have nb: "(g p \<noteq> [] \<and> trim (g p) \<noteq> []) = (trim (g p) \<noteq> [])"
    by (auto simp: trim_def)
  show ?thesis unfolding add_if_def nb by (auto simp: set_add_def)
qed

lemma add_if_distinct: "distinct l \<Longrightarrow> distinct (add_if g p l)"
  by (auto simp: add_if_def set_add_def)

lemma fold_add_if_set:
  "set (fold (add_if g) ps l) = set l \<union> {g p |p. p \<in> set ps \<and> trim (g p) \<noteq> []}"
proof (induction ps arbitrary: l)
  case Nil
  then show ?case by simp
next
  case (Cons p ps)
  have "set (fold (add_if g) (p # ps) l)
          = set (add_if g p l) \<union> {g p |p. p \<in> set ps \<and> trim (g p) \<noteq> []}"
    using Cons.IH[of "add_if g p l"] by simp
  also have "\<dots> = set l \<union> {g q |q. q \<in> set (p # ps) \<and> trim (g q) \<noteq> []}"
    unfolding add_if_set by auto
  finally show ?case .
qed

lemma fold_add_if_distinct: "distinct l \<Longrightarrow> distinct (fold (add_if g) ps l)"
proof (induction ps arbitrary: l)
  case Nil
  then show ?case by simp
next
  case (Cons p ps)
  from Cons.IH[OF add_if_distinct[OF Cons.prems]] show ?case by simp
qed

lemma sort_add_if:
  "sort (fold (add_if g) ps []) = sorted_list_of_set {g p |p. p \<in> set ps \<and> trim (g p) \<noteq> []}"
proof -
  have d: "distinct (fold (add_if g) ps [])" by (rule fold_add_if_distinct) simp
  have "sort (fold (add_if g) ps []) = sort (remdups (fold (add_if g) ps []))"
    using d by (simp add: distinct_remdups_id)
  also have "\<dots> = sorted_list_of_set (set (fold (add_if g) ps []))"
    by (simp add: sorted_list_of_set_sort_remdups)
  finally show ?thesis by (simp add: fold_add_if_set)
qed

lemma facet_step_fields:
  "acc_modelos (facet_step p acc) = add_if Product.modelo p (acc_modelos acc)"
  "acc_tipos (facet_step p acc) = add_if Product.tipo p (acc_tipos acc)"
  "acc_marcas (facet_step p acc) = add_if Product.marca p (acc_marcas acc)"
  "acc_sites (facet_step p acc) = add_if Product.site_origem p (acc_sites acc)"
  "acc_precoMin (facet_step p acc) = price_step Math_min p (acc_precoMin acc)"
  "acc_precoMax (facet_step p acc) = price_step Math_max p (acc_precoMax acc)"
  "acc_espacoMin (facet_step p acc) = storage_step Math_min p (acc_espacoMin acc)"
  "acc_espacoMax (facet_step p acc) = storage_step Math_max p (acc_espacoMax acc)"
  by (simp_all add: facet_step_def Let_def add_if_def price_step_def storage_step_def
      split: option.splits)

lemma fold_facet_step_fields:
  "acc_modelos (fold facet_step ps acc) = fold (add_if Product.modelo) ps (acc_modelos acc)"
  "acc_tipos (fold facet_step ps acc) = fold (add_if Product.tipo) ps (acc_tipos acc)"
  "acc_marcas (fold facet_step ps acc) = fold (add_if Product.marca) ps (acc_marcas acc)"
  "acc_sites (fold facet_step ps acc) = fold (add_if Product.site_origem) ps (acc_sites acc)"
  "acc_precoMin (fold facet_step ps acc) = fold (price_step Math_min) ps (acc_precoMin acc)"
  "acc_precoMax (fold facet_step ps acc) = fold (price_step Math_max) ps (acc_precoMax acc)"
  "acc_espacoMin (fold facet_step ps acc) = fold (storage_step Math_min) ps (acc_espacoMin acc)"
  "acc_espacoMax (fold facet_step ps acc) = fold (storage_step Math_max) ps (acc_espacoMax acc)"
  by (induction ps arbitrary: acc) (simp_all add: facet_step_fields)

lemma Math_min_left_commute: "Math_min (Math_min m a) b = Math_min (Math_min m b) a"
  by (cases m; cases a; cases b) auto

lemma Math_max_left_commute: "Math_max (Math_max m a) b = Math_max (Math_max m b) a"
  by (cases m; cases a; cases b) auto

lemma price_step_commute:
  assumes "\<And>m a b. op (op m a) b = op (op m b) a"
  shows "price_step op x \<circ> price_step op y = price_step op y \<circ> price_step op x"
  using assms by (auto simp: price_step_def fun_eq_iff)

lemma storage_step_commute:
  assumes "\<And>m a b. op (op m a) b = op (op m b) a"
  shows "storage_step op x \<circ> storage_step op y = storage_step op y \<circ> storage_step op x"
  using assms by (auto simp: storage_step_def fun_eq_iff split: option.splits)

lemma fold_steps_mset:
  assumes "mset ps = mset ps'"
  shows "fold (price_step Math_min) ps = fold (price_step Math_min) ps'"
    "fold (price_step Math_max) ps = fold (price_step Math_max) ps'"
    "fold (storage_step Math_min) ps = fold (storage_step Math_min) ps'"
    "fold (storage_step Math_max) ps = fold (storage_step Math_max) ps'"
  using assms
  by (auto intro!: fold_multiset_equiv price_step_commute storage_step_commute
      simp: Math_min_left_commute Math_max_left_commute)

lemma sort_add_if_mset:
  assumes "mset ps = mset ps'"
  shows "sort (fold (add_if g) ps []) = sort (fold (add_if g) ps' [])"
proof -
  have "set ps = set ps'" using assms by (rule mset_eq_setD)
  then show ?thesis by (simp add: sort_add_if)
qed

text \<open>The facets depend on the records of the collection, not on their order.\<close>

lemma getFilterValues_mset:
  assumes "mset ps = mset ps'"
  shows "getFilterValues ps = getFilterValues ps'"
  unfolding getFilterValues_def Let_def fold_facet_step_fields
  using sort_add_if_mset[OF assms] fold_steps_mset[OF assms]
  by (simp add: facet_init_def)

lemma cache_after_mset:
  "cache_after f (Some xs) = Some ys \<Longrightarrow> mset ys = mset xs"
  by (auto simp: cache_after_def js_sort_mset split: if_splits option.splits)

lemma cache_after_None: "cache_after f None = None"
  by (simp add: cache_after_def split: option.splits)

lemma cache_after_Some: "\<exists>ys. cache_after f (Some xs) = Some ys"
  by (simp add: cache_after_def split: option.splits)

lemma facets_array:
  assumes "loadProducts src c = (a, c1)"
  shows "mset (deref (snd (loadProducts src (cache_after f c1)))
                     (fst (loadProducts src (cache_after f c1))))
           = mset (collection src c)"
proof -
  from loadProducts_cases[of src c] show ?thesis
  proof
    assume "\<exists>xs. loadProducts src c = (Cached, Some xs)"
    then obtain xs where ld: "loadProducts src c = (Cached, Some xs)" ..
    with assms have ac: "a = Cached" "c1 = Some xs" by simp_all
    obtain ys where ys: "cache_after f (Some xs) = Some ys" using cache_after_Some by blast
    have "collection src c = xs" using ld by (simp add: collection_def deref_def)
    then show ?thesis
      using ys cache_after_mset[OF ys] ac by (simp add: loadProducts_cached deref_def)
  next
    assume "c = None \<and> loadProducts src c = (Local [], None)"
    then have ld: "loadProducts src c = (Local [], None)" and cN: "c = None" by blast+
    from assms[unfolded ld] have ac: "a = Local []" "c1 = None" by simp_all
    have "collection src c = []" using ld by (simp add: collection_def deref_def)
    then show ?thesis using ld ac unfolding cN by (simp add: cache_after_None deref_def)
  qed
qed

lemma GET_filters: "filters (fst (GET src c f)) = getFilterValues (collection src c)"
proof -
  obtain a c1 where ld: "loadProducts src c = (a, c1)" by (cases "loadProducts src c") auto
  show ?thesis
    unfolding GET_unfold[OF ld] Let_def
    using getFilterValues_mset[OF facets_array[OF ld, of f]] by simp
qed

subsection \<open>The sample catalogue\<close>

lemma example_normalized:
  "normalizeProduct (example_raw ''A'' ''3999.00'' ''825 GB'') = product_A"
  "normalizeProduct (example_raw ''B'' ''4.499'' ''1 TB'') = product_B"
  "normalizeProduct (example_raw ''C'' ''449,90'' '''') = product_C"
proof -
  have p: "normalizePrice ''3999.00'' = Fin 3999" "normalizePrice ''4.499'' = Fin 4499"
    "normalizePrice ''449,90'' = Fin (4499 / 10)"
    by (simp_all add: price_eval)
  have s: "extractStorageInGB ''825 GB'' = Some (Fin 825)"
    "extractStorageInGB ''1 TB'' = Some (Fin 1024)" "extractStorageInGB '''' = None"
    by (simp_all add: storage_eval)
  have g: "hasGames [] = False" by (simp add: hasGames_def trim_def)
  show "normalizeProduct (example_raw ''A'' ''3999.00'' ''825 GB'') = product_A"
    "normalizeProduct (example_raw ''B'' ''4.499'' ''1 TB'') = product_B"
    "normalizeProduct (example_raw ''C'' ''449,90'' '''') = product_C"
    by (simp_all add: normalizeProduct_def example_raw_def example_product_def product_A_def
        product_B_def product_C_def p s g)
qed

lemma example_load:
  "loadProducts example_sources None = (Cached, Some [product_A, product_B, product_C])"
  by (simp add: loadProducts_def read_and_normalize_def example_sources_def example_normalized)

lemma example_collection: "collection example_sources None = [product_A, product_B, product_C]"
  by (simp add: collection_def example_load deref_def)

lemma example_facets:
  "getFilterValues [product_A, product_B, product_C]
     = \<lparr> modelos = [''Slim''], tipos = [''Console''], marcas = [''Sony''], sites = [''ml''],
         FilterValues.precoMin = Fin 449, FilterValues.precoMax = Fin 4499,
         FilterValues.espacoMin = Fin 825, FilterValues.espacoMax = Fin 1024 \<rparr>"
proof -
  have fl: "\<lfloor>4499 / 10 :: rat\<rfloor> = 449" by (rule floor_unique) simp_all
  show ?thesis
    by (simp add: getFilterValues_def facet_step_def facet_init_def set_add_def Let_def
        product_A_def product_B_def product_C_def example_product_def trim_def is_space_def fl)
qed

subsection \<open>Facets and filters\<close>

text \<open>
  Claim C7: the facets of a response are those of the whole collection the request
  works on, whatever the query, so two queries on the same collection get the same
  facets; and each categorical facet is the sorted list of the distinct values that are
  not blank.
\<close>

theorem facets_of_whole_collection:
  "filters (fst (GET src c f)) = getFilterValues (collection src c)
   \<and> filters (fst (GET src c f)) = filters (fst (GET src c f'))
   \<and> modelos (getFilterValues ps)
       = sorted_list_of_set {Product.modelo p |p. p \<in> set ps \<and> trim (Product.modelo p) \<noteq> []}
   \<and> tipos (getFilterValues ps)
       = sorted_list_of_set {Product.tipo p |p. p \<in> set ps \<and> trim (Product.tipo p) \<noteq> []}
   \<and> marcas (getFilterValues ps)
       = sorted_list_of_set {Product.marca p |p. p \<in> set ps \<and> trim (Product.marca p) \<noteq> []}
   \<and> sites (getFilterValues ps)
       = sorted_list_of_set
           {Product.site_origem p |p. p \<in> set ps \<and> trim (Product.site_origem p) \<noteq> []}"
proof (intro conjI)
  show "filters (fst (GET src c f)) = getFilterValues (collection src c)"
    by (rule GET_filters)
  show "filters (fst (GET src c f)) = filters (fst (GET src c f'))"
    by (simp only: GET_filters)
  show "modelos (getFilterValues ps)
       = sorted_list_of_set {Product.modelo p |p. p \<in> set ps \<and> trim (Product.modelo p) \<noteq> []}"
    by (simp add: getFilterValues_def Let_def fold_facet_step_fields facet_init_def sort_add_if)
  show "tipos (getFilterValues ps)
       = sorted_list_of_set {Product.tipo p |p. p \<in> set ps \<and> trim (Product.tipo p) \<noteq> []}"
    by (simp add: getFilterValues_def Let_def fold_facet_step_fields facet_init_def sort_add_if)
  show "marcas (getFilterValues ps)
       = sorted_list_of_set {Product.marca p |p. p \<in> set ps \<and> trim (Product.marca p) \<noteq> []}"
    by (simp add: getFilterValues_def Let_def fold_facet_step_fields facet_init_def sort_add_if)
  show "sites (getFilterValues ps)
       = sorted_list_of_set
           {Product.site_origem p |p. p \<in> set ps \<and> trim (Product.site_origem p) \<noteq> []}"
    by (simp add: getFilterValues_def Let_def fold_facet_step_fields facet_init_def sort_add_if)
qed

theorem facets_of_whole_collection_witness:
  "filters (fst (GET example_sources None (no_filters\<lparr>SearchFilters.precoMax := Some (Fin 1000)\<rparr>)))
     = \<lparr> modelos = [''Slim''], tipos = [''Console''], marcas = [''Sony''], sites = [''ml''],
         FilterValues.precoMin = Fin 449, FilterValues.precoMax = Fin 4499,
         FilterValues.espacoMin = Fin 825, FilterValues.espacoMax = Fin 1024 \<rparr>
   \<and> filters (fst (GET example_sources None no_filters))
     = filters (fst (GET example_sources None (no_filters\<lparr>SearchFilters.precoMax := Some (Fin 1000)\<rparr>)))"
proof -
  let ?q = "no_filters\<lparr>SearchFilters.precoMax := Some (Fin 1000)\<rparr>"
  have a: "filters (fst (GET example_sources None ?q))
            = getFilterValues (collection example_sources None)"
    using facets_of_whole_collection[of example_sources None ?q no_filters "[]"]
    by (rule conjunct1)
  have b: "filters (fst (GET example_sources None no_filters))
            = filters (fst (GET example_sources None ?q))"
    using facets_of_whole_collection[of example_sources None no_filters ?q "[]"]
    by (elim conjE)
  show ?thesis
    using a b by (simp only: example_collection example_facets)
qed

subsection \<open>Sorting by price\<close>

lemma jgt_jsub_key:
  assumes "a \<noteq> NaN" "b \<noteq> NaN"
  shows "jgt (jsub a b) (Fin 0) = (\<not> price_key a \<le> price_key b)"
  using assms by (cases a; cases b) (auto simp: price_key_def)

lemma price_key_desc_le:
  "(price_key_desc a \<le> price_key_desc b) = (price_key b \<le> price_key a)"
  by (cases "price_key a"; cases "price_key b") (auto simp: price_key_desc_def)

lemma price_key_inj: "inj price_key"
  by (rule injI) (auto simp: price_key_def split: jsnum.splits)

lemma price_key_le_jle:
  assumes "a \<noteq> NaN" "b \<noteq> NaN"
  shows "(price_key a \<le> price_key b) = jle a b"
  using assms by (cases a; cases b) (auto simp: price_key_def)

lemma insort_cmp_asc:
  assumes "Product.preco_vista x \<noteq> NaN" "\<forall>y \<in> set ys. Product.preco_vista y \<noteq> NaN"
  shows "insort_cmp cmp_preco_asc x ys = insort_key (\<lambda>p. price_key (Product.preco_vista p)) x ys"
  using assms by (induction ys) (auto simp: cmp_preco_asc_def jgt_jsub_key)

lemma insort_cmp_desc:
  assumes "Product.preco_vista x \<noteq> NaN" "\<forall>y \<in> set ys. Product.preco_vista y \<noteq> NaN"
  shows "insort_cmp cmp_preco_desc x ys = insort_key (\<lambda>p. price_key_desc (Product.preco_vista p)) x ys"
  using assms by (induction ys) (auto simp: cmp_preco_desc_def jgt_jsub_key price_key_desc_le)

text \<open>On prices that are numbers the two price sorts are the stable sorts by the two keys.\<close>

lemma js_sort_asc:
  assumes "\<forall>p \<in> set xs. Product.preco_vista p \<noteq> NaN"
  shows "js_sort cmp_preco_asc xs = sort_key (\<lambda>p. price_key (Product.preco_vista p)) xs"
  using assms
proof (induction xs)
  case Nil
  then show ?case by (simp add: js_sort_def)
next
  case (Cons x xs)
  then have ih: "js_sort cmp_preco_asc xs = sort_key (\<lambda>p. price_key (Product.preco_vista p)) xs"
    by simp
  have "\<forall>y \<in> set (sort_key (\<lambda>p. price_key (Product.preco_vista p)) xs). Product.preco_vista y \<noteq> NaN"
    using Cons.prems by simp
  then show ?case
    using Cons.prems ih insort_cmp_asc[of x "sort_key (\<lambda>p. price_key (Product.preco_vista p)) xs"]
    by (simp add: js_sort_def sort_key_def)
qed

lemma js_sort_desc:
  assumes "\<forall>p \<in> set xs. Product.preco_vista p \<noteq> NaN"
  shows "js_sort cmp_preco_desc xs = sort_key (\<lambda>p. price_key_desc (Product.preco_vista p)) xs"
  using assms
proof (induction xs)
  case Nil
  then show ?case by (simp add: js_sort_def)
next
  case (Cons x xs)
  then have ih: "js_sort cmp_preco_desc xs = sort_key (\<lambda>p. price_key_desc (Product.preco_vista p)) xs"
    by simp
  have "\<forall>y \<in> set (sort_key (\<lambda>p. price_key_desc (Product.preco_vista p)) xs). Product.preco_vista y \<noteq> NaN"
    using Cons.prems by simp
  then show ?case
    using Cons.prems ih insort_cmp_desc[of x "sort_key (\<lambda>p. price_key_desc (Product.preco_vista p)) xs"]
    by (simp add: js_sort_def sort_key_def)
qed

lemma stable_by_price:
  assumes "\<forall>p \<in> set xs. Product.preco_vista p \<noteq> NaN" "inj k"
  shows "filter (\<lambda>p. Product.preco_vista p = v) (sort_key (\<lambda>p. k (Product.preco_vista p)) xs)
           = filter (\<lambda>p. Product.preco_vista p = v) xs"
proof -
  have eq: "(\<lambda>p. Product.preco_vista p = v) = (\<lambda>p. k (Product.preco_vista p) = k v)"
    using assms(2) by (auto simp: inj_eq fun_eq_iff)
  show ?thesis unfolding eq by (rule sort_key_stable)
qed

lemma price_key_desc_inj: "inj price_key_desc"
proof (rule injI)
  fix a b assume "price_key_desc a = price_key_desc b"
  then have "price_key a = price_key b"
    by (cases "price_key a"; cases "price_key b") (simp add: price_key_desc_def)
  then show "a = b" using price_key_inj by (simp add: inj_eq)
qed

lemma sorted_desc_rev:
  assumes "sorted (map price_key_desc vs)"
  shows "sorted (rev (map price_key vs))"
proof -
  have "sorted_wrt (\<lambda>a b. price_key_desc a \<le> price_key_desc b) vs"
    using assms by (simp add: sorted_map)
  then have "sorted_wrt (\<lambda>a b. price_key b \<le> price_key a) vs"
    by (simp only: price_key_desc_le)
  then have "sorted_wrt (\<lambda>a b. b \<le> a) (map price_key vs)"
    by (simp add: sorted_wrt_map)
  then show ?thesis by (simp add: sorted_wrt_rev)
qed

lemma reversed_prices:
  fixes xs :: "Product list"
  defines "asc \<equiv> sort_key (\<lambda>p. price_key (Product.preco_vista p)) xs"
    and "desc \<equiv> sort_key (\<lambda>p. price_key_desc (Product.preco_vista p)) xs"
  shows "map Product.preco_vista desc = rev (map Product.preco_vista asc)"
proof -
  let ?K = "map price_key (map Product.preco_vista xs)"
  have s1: "sorted (map price_key (map Product.preco_vista asc))"
    unfolding asc_def using sorted_sort_key[of "\<lambda>p. price_key (Product.preco_vista p)" xs]
    by (simp add: comp_def)
  have m1: "mset (map price_key (map Product.preco_vista asc)) = mset ?K"
    unfolding asc_def by simp
  have "sorted (map price_key_desc (map Product.preco_vista desc))"
    unfolding desc_def using sorted_sort_key[of "\<lambda>p. price_key_desc (Product.preco_vista p)" xs]
    by (simp add: comp_def)
  then have s2: "sorted (rev (map price_key (map Product.preco_vista desc)))"
    by (rule sorted_desc_rev)
  have m2: "mset (rev (map price_key (map Product.preco_vista desc))) = mset ?K"
    unfolding desc_def by simp
  have "rev (map price_key (map Product.preco_vista desc)) = map price_key (map Product.preco_vista asc)"
    using properties_for_sort[OF m1 s1] properties_for_sort[OF m2 s2] by simp
  then have "rev (rev (map price_key (map Product.preco_vista desc)))
               = rev (map price_key (map Product.preco_vista asc))"
    by (rule arg_cong)
  then have "map price_key (map Product.preco_vista desc)
               = rev (map price_key (map Product.preco_vista asc))"
    by (simp only: rev_rev_ident)
  then have "map price_key (map Product.preco_vista desc)
               = map price_key (rev (map Product.preco_vista asc))"
    by (simp only: rev_map)
  then show ?thesis using price_key_inj by (simp only: inj_map_eq_map)
qed

lemma working_set_sortBy:
  "working_set (f\<lparr>sortBy := Some ''preco_asc''\<rparr>) coll = js_sort cmp_preco_asc (filter (passes f) coll)"
  "working_set (f\<lparr>sortBy := Some ''preco_desc''\<rparr>) coll = js_sort cmp_preco_desc (filter (passes f) coll)"
proof -
  have p: "passes (f\<lparr>sortBy := s\<rparr>) = passes f" for s
    by (simp add: passes_def fun_eq_iff active_filters_def filter_steps_def)
  show "working_set (f\<lparr>sortBy := Some ''preco_asc''\<rparr>) coll = js_sort cmp_preco_asc (filter (passes f) coll)"
    unfolding working_set_def p by (simp add: sort_comparator_def)
  show "working_set (f\<lparr>sortBy := Some ''preco_desc''\<rparr>) coll = js_sort cmp_preco_desc (filter (passes f) coll)"
    unfolding working_set_def p by (simp add: sort_comparator_def)
qed

text \<open>The two price sorts of one filtered set, as working sets.\<close>

lemma working_set_price_sorts:
  assumes "\<forall>p \<in> set coll. Product.preco_vista p \<noteq> NaN"
  shows "sorted_wrt (\<lambda>a b. jle (Product.preco_vista a) (Product.preco_vista b))
           (working_set (f\<lparr>sortBy := Some ''preco_asc''\<rparr>) coll)
    \<and> sorted_wrt (\<lambda>a b. jle (Product.preco_vista b) (Product.preco_vista a))
           (working_set (f\<lparr>sortBy := Some ''preco_desc''\<rparr>) coll)
    \<and> map Product.preco_vista (working_set (f\<lparr>sortBy := Some ''preco_desc''\<rparr>) coll)
        = rev (map Product.preco_vista (working_set (f\<lparr>sortBy := Some ''preco_asc''\<rparr>) coll))
    \<and> filter (\<lambda>p. Product.preco_vista p = v) (working_set (f\<lparr>sortBy := Some ''preco_asc''\<rparr>) coll)
        = filter (\<lambda>p. Product.preco_vista p = v) (filter (passes f) coll)
    \<and> filter (\<lambda>p. Product.preco_vista p = v) (working_set (f\<lparr>sortBy := Some ''preco_desc''\<rparr>) coll)
        = filter (\<lambda>p. Product.preco_vista p = v) (filter (passes f) coll)
    \<and> mset (working_set (f\<lparr>sortBy := Some ''preco_asc''\<rparr>) coll) = mset (filter (passes f) coll)
    \<and> mset (working_set (f\<lparr>sortBy := Some ''preco_desc''\<rparr>) coll) = mset (filter (passes f) coll)"
proof -
  let ?xs = "filter (passes f) coll"
  let ?ka = "\<lambda>p. price_key (Product.preco_vista p)"
  let ?kd = "\<lambda>p. price_key_desc (Product.preco_vista p)"
  have nn: "\<forall>p \<in> set ?xs. Product.preco_vista p \<noteq> NaN" using assms by simp
  have asc: "working_set (f\<lparr>sortBy := Some ''preco_asc''\<rparr>) coll = sort_key ?ka ?xs"
    unfolding working_set_sortBy by (rule js_sort_asc[OF nn])
  have desc: "working_set (f\<lparr>sortBy := Some ''preco_desc''\<rparr>) coll = sort_key ?kd ?xs"
    unfolding working_set_sortBy by (rule js_sort_desc[OF nn])
  have "sorted_wrt (\<lambda>a b. ?ka a \<le> ?ka b) (sort_key ?ka ?xs)"
    using sorted_sort_key[of ?ka ?xs] by (simp only: sorted_map)
  then have s1: "sorted_wrt (\<lambda>a b. jle (Product.preco_vista a) (Product.preco_vista b))
                   (sort_key ?ka ?xs)"
    by (rule sorted_wrt_mono_rel[rotated]) (use nn in \<open>simp add: price_key_le_jle\<close>)
  have "sorted_wrt (\<lambda>a b. ?kd a \<le> ?kd b) (sort_key ?kd ?xs)"
    using sorted_sort_key[of ?kd ?xs] by (simp only: sorted_map)
  then have s2: "sorted_wrt (\<lambda>a b. jle (Product.preco_vista b) (Product.preco_vista a))
                   (sort_key ?kd ?xs)"
    by (rule sorted_wrt_mono_rel[rotated])
       (use nn in \<open>simp add: price_key_le_jle price_key_desc_le\<close>)
  show ?thesis
    unfolding asc desc
    using s1 s2 reversed_prices[of ?xs] stable_by_price[OF nn price_key_inj, of v]
      stable_by_price[OF nn price_key_desc_inj, of v]
    by simp
qed


text \<open>A request for page 1 with a page that holds the whole collection returns the working set.\<close>

lemma GET_whole_page:
  assumes "int (length (collection src c)) \<le> l" "0 < l"
  shows "products (fst (GET src c
            (f\<lparr>SearchFilters.page := Some (Fin 1), SearchFilters.limit := Some (Fin (of_int l))\<rparr>)))
           = working_set f (collection src c)"
proof -
  let ?g = "f\<lparr>SearchFilters.page := Some (Fin 1), SearchFilters.limit := Some (Fin (of_int l))\<rparr>"
  have pg: "or_default (SearchFilters.page ?g) (Fin 1) = Fin 1" by (simp add: or_default_def)
  have lm: "or_default (SearchFilters.limit ?g) (Fin 20) = Fin (of_int l)"
    using assms(2) by (simp add: or_default_def)
  have pf: "page_from_one (or_default (SearchFilters.page ?g) (Fin 1))"
    unfolding pg by (simp add: page_from_one_def)
  have "length (working_set f (collection src c)) \<le> length (collection src c)"
    by (simp add: working_set_length)
  then have len: "length (working_set f (collection src c)) \<le> nat l" using assms(1) by linarith
  have "products (fst (GET src c ?g)) = page_window (working_set ?g (collection src c)) (Fin 1) l"
    using GET_products[OF pf lm assms(2), of src c] unfolding pg .
  then show ?thesis using len by (simp add: page_window_def)
qed

lemma sort_desc_after_asc:
  assumes "\<forall>p \<in> set xs. Product.preco_vista p \<noteq> NaN"
  shows "js_sort cmp_preco_desc (js_sort cmp_preco_asc xs) = js_sort cmp_preco_desc xs"
proof -
  let ?ka = "\<lambda>p. price_key (Product.preco_vista p)"
  let ?kd = "\<lambda>p. price_key_desc (Product.preco_vista p)"
  let ?ys = "sort_key ?kd (sort_key ?ka xs)"
  have nn': "\<forall>p \<in> set (js_sort cmp_preco_asc xs). Product.preco_vista p \<noteq> NaN"
    using assms js_sort_mset[of cmp_preco_asc xs] by (metis mset_eq_setD)
  have st: "filter (\<lambda>x. ?kd k = ?kd x) ?ys = filter (\<lambda>x. ?kd k = ?kd x) xs" for k
  proof -
    have e1: "(\<lambda>x. ?kd k = ?kd x) = (\<lambda>x. ?kd x = ?kd k)" by auto
    have e2: "(\<lambda>x. ?kd x = ?kd k) = (\<lambda>x. ?ka x = ?ka k)"
      using price_key_inj price_key_desc_inj by (auto simp: inj_eq fun_eq_iff)
    have "filter (\<lambda>x. ?kd x = ?kd k) ?ys = filter (\<lambda>x. ?kd x = ?kd k) (sort_key ?ka xs)"
      by (rule sort_key_stable)
    also have "\<dots> = filter (\<lambda>x. ?ka x = ?ka k) (sort_key ?ka xs)" unfolding e2 ..
    also have "\<dots> = filter (\<lambda>x. ?ka x = ?ka k) xs" by (rule sort_key_stable)
    finally show ?thesis unfolding e1 e2 .
  qed
  have "sort_key ?kd xs = ?ys"
    by (rule properties_for_sort_key) (simp_all add: st)
  then show ?thesis
    unfolding js_sort_asc[OF assms] js_sort_desc[OF assms]
    using js_sort_desc[OF nn'] unfolding js_sort_asc[OF assms] by simp
qed

lemma working_set_desc_after_asc:
  assumes "\<forall>p \<in> set xs. Product.preco_vista p \<noteq> NaN"
    and "cache_after (f\<lparr>sortBy := Some ''preco_asc''\<rparr>) (Some xs) = Some ys"
  shows "working_set (f\<lparr>sortBy := Some ''preco_desc''\<rparr>) ys
           = working_set (f\<lparr>sortBy := Some ''preco_desc''\<rparr>) xs"
proof (cases "active_filters f = []")
  case True
  have af: "active_filters (f\<lparr>sortBy := Some ''preco_asc''\<rparr>) = []"
    using True by (simp add: active_filters_def filter_steps_def)
  have ys: "ys = js_sort cmp_preco_asc xs"
    using assms(2) by (simp add: cache_after_def af sort_comparator_def)
  have all: "filter (passes f) zs = zs" for zs by (simp add: passes_def True)
  show ?thesis
    unfolding working_set_sortBy all ys by (rule sort_desc_after_asc[OF assms(1)])
next
  case False
  have "active_filters (f\<lparr>sortBy := Some ''preco_asc''\<rparr>) \<noteq> []"
    using False by (simp add: active_filters_def filter_steps_def)
  then have "ys = xs" using assms(2) by (simp add: cache_after_def)
  then show ?thesis by simp
qed

lemma cache_after_page_limit [simp]:
  "cache_after (f\<lparr>SearchFilters.page := q\<rparr>) c = cache_after f c"
  "cache_after (f\<lparr>SearchFilters.limit := q\<rparr>) c = cache_after f c"
  by (simp_all add: cache_after_def)

text \<open>
  Claim C8: take a collection whose prices are numbers (\<open>normalizePrice\<close> never gives
  \<open>NaN\<close>), any filters, and a page that holds the whole collection. The records the
  handler returns sorted by price ascending and those it returns sorted by price
  descending are the records that pass the filters, in ascending and in descending order
  of price; the prices of one are those of the other reversed; in both the records of any
  one price stand in the order the filtered collection has them; and the descending
  response is the same when it is requested after the ascending one, which may have
  sorted the cached array.
\<close>

theorem price_sorts_reversed_and_stable:
  fixes src :: sources and c :: cache and f :: SearchFilters and l :: int and v :: jsnum
  defines "asc_query \<equiv> f\<lparr>sortBy := Some ''preco_asc'', SearchFilters.page := Some (Fin 1),
                             SearchFilters.limit := Some (Fin (of_int l))\<rparr>"
    and "desc_query \<equiv> f\<lparr>sortBy := Some ''preco_desc'', SearchFilters.page := Some (Fin 1),
                              SearchFilters.limit := Some (Fin (of_int l))\<rparr>"
  assumes "\<forall>p \<in> set (collection src c). Product.preco_vista p \<noteq> NaN"
    and "int (length (collection src c)) \<le> l"
    and "0 < l"
  shows "sorted_wrt (\<lambda>a b. jle (Product.preco_vista a) (Product.preco_vista b))
           (products (fst (GET src c asc_query)))
    \<and> sorted_wrt (\<lambda>a b. jle (Product.preco_vista b) (Product.preco_vista a))
           (products (fst (GET src c desc_query)))
    \<and> map Product.preco_vista (products (fst (GET src c desc_query)))
        = rev (map Product.preco_vista (products (fst (GET src c asc_query))))
    \<and> filter (\<lambda>p. Product.preco_vista p = v) (products (fst (GET src c asc_query)))
        = filter (\<lambda>p. Product.preco_vista p = v) (filter (passes f) (collection src c))
    \<and> filter (\<lambda>p. Product.preco_vista p = v) (products (fst (GET src c desc_query)))
        = filter (\<lambda>p. Product.preco_vista p = v) (filter (passes f) (collection src c))
    \<and> mset (products (fst (GET src c asc_query))) = mset (filter (passes f) (collection src c))
    \<and> mset (products (fst (GET src c desc_query))) = mset (filter (passes f) (collection src c))
    \<and> products (fst (GET src (snd (GET src c asc_query)) desc_query))
        = products (fst (GET src c desc_query))"
proof -
  let ?coll = "collection src c"
  have a: "products (fst (GET src c asc_query)) = working_set (f\<lparr>sortBy := Some ''preco_asc''\<rparr>) ?coll"
    unfolding asc_query_def
    using GET_whole_page[OF assms(4,5), of "f\<lparr>sortBy := Some ''preco_asc''\<rparr>"] by simp
  have d: "products (fst (GET src c desc_query)) = working_set (f\<lparr>sortBy := Some ''preco_desc''\<rparr>) ?coll"
    unfolding desc_query_def
    using GET_whole_page[OF assms(4,5), of "f\<lparr>sortBy := Some ''preco_desc''\<rparr>"] by simp
  have seq: "products (fst (GET src (snd (GET src c asc_query)) desc_query))
        = working_set (f\<lparr>sortBy := Some ''preco_desc''\<rparr>) ?coll"
  proof -
    from loadProducts_cases[of src c] show ?thesis
    proof
      assume "\<exists>xs. loadProducts src c = (Cached, Some xs)"
      then obtain xs where ld: "loadProducts src c = (Cached, Some xs)" ..
      have coll: "?coll = xs" using ld by (simp add: collection_def deref_def)
      obtain ys where ys: "cache_after (f\<lparr>sortBy := Some ''preco_asc''\<rparr>) (Some xs) = Some ys"
        using cache_after_Some by blast
      have st: "snd (GET src c asc_query) = Some ys"
        unfolding GET_cache[OF ld] asc_query_def using ys by (simp add: loadProducts_cached)
      have coll': "collection src (Some ys) = ys"
        by (simp add: collection_def loadProducts_cached deref_def)
      have len: "int (length (collection src (Some ys))) \<le> l"
        unfolding coll' using cache_after_mset[OF ys] assms(4) coll
        by (metis mset_eq_length)
      have nn: "\<forall>p \<in> set xs. Product.preco_vista p \<noteq> NaN" using assms(3) coll by simp
      have "products (fst (GET src (Some ys) desc_query))
              = working_set (f\<lparr>sortBy := Some ''preco_desc''\<rparr>) ys"
        unfolding desc_query_def
        using GET_whole_page[OF len assms(5), of "f\<lparr>sortBy := Some ''preco_desc''\<rparr>"]
        unfolding coll' by simp
      then show ?thesis
        unfolding st coll using working_set_desc_after_asc[OF nn ys] by simp
    next
      assume "c = None \<and> loadProducts src c = (Local [], None)"
      then have ld: "loadProducts src c = (Local [], None)" and cN: "c = None" by blast+
      have "snd (GET src c asc_query) = None"
        unfolding GET_cache[OF ld] using ld cN by (simp add: cache_after_None)
      then show ?thesis using d cN by simp
    qed
  qed
  show ?thesis
    unfolding a d seq
    using working_set_price_sorts[OF assms(3), of f v] by simp
qed

text \<open>Every collection \<open>loadProducts\<close> builds satisfies the premise of the theorem above.\<close>

lemma normalizePrice_not_NaN: "normalizePrice s \<noteq> NaN"
  by (simp add: normalizePrice_def Let_def isNaN_def)

lemma loaded_prices_numbers:
  assumes "read_and_normalize src = Inr ps"
  shows "\<forall>p \<in> set ps. Product.preco_vista p \<noteq> NaN"
  using assms
  by (auto simp: read_and_normalize_def Let_def normalizeProduct_def normalizePrice_not_NaN
      split: option.splits)

subsection \<open>Evaluating queries on the sample catalogue\<close>

lemmas query_eval =
  working_set_def passes_def active_filters_def filter_steps_def in_list_def no_filters_def
  example_query_def sort_comparator_def js_sort_def cmp_preco_asc_def cmp_preco_desc_def
  cmp_original_def originalIndex_def to_number_def
  product_A_def product_B_def product_C_def product_D_def example_product_def

lemma example_working_set:
  "working_set example_query [product_A, product_B, product_C] = [product_C, product_A, product_B]"
  by (simp add: query_eval)

lemma example_passes: "filter (passes example_query) [product_A, product_B, product_C]
    = [product_A, product_B, product_C]"
  by (simp add: query_eval)

theorem pagination_witness:
  "page_from_one (or_default (SearchFilters.page example_query) (Fin 1))
   \<and> or_default (SearchFilters.limit example_query) (Fin 20) = Fin 2
   \<and> total (fst (GET example_sources None example_query)) = 3
   \<and> totalPages (fst (GET example_sources None example_query)) = Fin 2
   \<and> products (fst (GET example_sources None example_query)) = [product_C, product_A]
   \<and> (\<Sum>q = 1..2. int (length (products
          (fst (GET example_sources None (example_query\<lparr>SearchFilters.page := Some (Fin (of_int q))\<rparr>))))))
        = 3"
proof -
  have p: "or_default (SearchFilters.page example_query) (Fin 1) = Fin 1"
    by (simp add: example_query_def no_filters_def or_default_def)
  have h1: "page_from_one (or_default (SearchFilters.page example_query) (Fin 1))"
    unfolding p by (simp add: page_from_one_def)
  have l: "or_default (SearchFilters.limit example_query) (Fin 20) = Fin (of_int 2)"
    by (simp add: example_query_def no_filters_def or_default_def)
  have h3: "(0::int) < 2" by simp
  note P = pagination[OF h1 l h3, of example_sources None, unfolded p example_collection
      example_passes example_working_set]
  have t: "total (fst (GET example_sources None example_query)) = 3"
    using P[THEN conjunct1] by simp
  have c: "\<lceil>3 / 2 :: rat\<rceil> = 2" by (rule ceiling_unique) simp_all
  have tp: "totalPages (fst (GET example_sources None example_query)) = Fin 2"
    using P[THEN conjunct2, THEN conjunct1] unfolding t by (simp add: c)
  have pr: "products (fst (GET example_sources None example_query)) = [product_C, product_A]"
    using P[THEN conjunct2, THEN conjunct2, THEN conjunct1] by (simp add: page_window_def)
  have sm: "(\<Sum>q = 1..2. int (length (products
          (fst (GET example_sources None (example_query\<lparr>SearchFilters.page := Some (Fin (of_int q))\<rparr>))))))
        = 3"
    using P[THEN conjunct2, THEN conjunct2, THEN conjunct2, THEN conjunct2, THEN conjunct1]
    unfolding t by (simp add: c)
  show ?thesis using h1 l t tp pr sm by simp
qed

text \<open>
  Claim C6 as stated fails for an infinite page size, which is positive: on page 1 the
  handler computes the start \<open>0 * Infinity = NaN\<close> and cuts the empty window, and the page
  count is \<open>ceil(3 / Infinity) = 0\<close>, so no page holds any of the three records, where
  the window from 0 holds all of them.
\<close>

theorem pagination_infinite_limit_counterexample:
  "jge (or_default (SearchFilters.page infinite_limit_query) (Fin 1)) (Fin 1)
   \<and> jgt (or_default (SearchFilters.limit infinite_limit_query) (Fin 20)) (Fin 0)
   \<and> total (fst (GET example_sources None infinite_limit_query)) = 3
   \<and> working_set infinite_limit_query (collection example_sources None)
       = [product_A, product_B, product_C]
   \<and> products (fst (GET example_sources None infinite_limit_query)) = []
   \<and> totalPages (fst (GET example_sources None infinite_limit_query)) = Fin 0"
proof -
  have p: "or_default (SearchFilters.page infinite_limit_query) (Fin 1) = Fin 1"
    by (simp add: infinite_limit_query_def no_filters_def or_default_def)
  have l: "or_default (SearchFilters.limit infinite_limit_query) (Fin 20) = PInf"
    by (simp add: infinite_limit_query_def no_filters_def or_default_def)
  have ws: "working_set infinite_limit_query [product_A, product_B, product_C]
              = [product_A, product_B, product_C]"
    by (simp add: infinite_limit_query_def query_eval)
  have pr: "products (fst (GET example_sources None infinite_limit_query)) = []"
    unfolding GET_products_window[OF example_load] p l example_collection ws
    by (simp add: slice_def relative_index_def)
  have t: "total (fst (GET example_sources None infinite_limit_query)) = 3"
    unfolding GET_unfold[OF example_load] Let_def example_collection ws by simp
  have tp: "totalPages (fst (GET example_sources None infinite_limit_query)) = Fin 0"
    unfolding GET_unfold[OF example_load] Let_def example_collection ws l by simp
  show ?thesis unfolding p l using ws pr t tp by (simp add: example_collection jge_def)
qed

theorem price_sorts_reversed_and_stable_witness:
  "products (fst (GET example_sources (Some tie_collection)
      (no_filters\<lparr>sortBy := Some ''preco_asc'', SearchFilters.page := Some (Fin 1),
                   SearchFilters.limit := Some (Fin 4)\<rparr>)))
     = [product_C, product_A, product_D, product_B]
   \<and> products (fst (GET example_sources (Some tie_collection)
      (no_filters\<lparr>sortBy := Some ''preco_desc'', SearchFilters.page := Some (Fin 1),
                   SearchFilters.limit := Some (Fin 4)\<rparr>)))
     = [product_B, product_A, product_D, product_C]
   \<and> map Product.preco_vista (products (fst (GET example_sources (Some tie_collection)
      (no_filters\<lparr>sortBy := Some ''preco_desc'', SearchFilters.page := Some (Fin 1),
                   SearchFilters.limit := Some (Fin 4)\<rparr>))))
     = rev (map Product.preco_vista (products (fst (GET example_sources (Some tie_collection)
      (no_filters\<lparr>sortBy := Some ''preco_asc'', SearchFilters.page := Some (Fin 1),
                   SearchFilters.limit := Some (Fin 4)\<rparr>)))))
   \<and> filter (\<lambda>p. Product.preco_vista p = Fin 3999) (filter (passes no_filters) tie_collection)
     = [product_A, product_D]"
proof -
  have coll: "collection example_sources (Some tie_collection) = tie_collection"
    by (simp add: collection_def loadProducts_cached deref_def)
  have nn: "\<forall>p \<in> set (collection example_sources (Some tie_collection)). Product.preco_vista p \<noteq> NaN"
    unfolding coll by (simp add: tie_collection_def query_eval)
  have len: "int (length (collection example_sources (Some tie_collection))) \<le> 4"
    unfolding coll by (simp add: tie_collection_def)
  have pos: "(0::int) < 4" by simp
  note T = price_sorts_reversed_and_stable[OF nn len pos, of no_filters "Fin 3999"]
  have r: "map Product.preco_vista (products (fst (GET example_sources (Some tie_collection)
      (no_filters\<lparr>sortBy := Some ''preco_desc'', SearchFilters.page := Some (Fin 1),
                   SearchFilters.limit := Some (Fin 4)\<rparr>))))
     = rev (map Product.preco_vista (products (fst (GET example_sources (Some tie_collection)
      (no_filters\<lparr>sortBy := Some ''preco_asc'', SearchFilters.page := Some (Fin 1),
                   SearchFilters.limit := Some (Fin 4)\<rparr>)))))"
    using T[THEN conjunct2, THEN conjunct2, THEN conjunct1] by simp
  have f: "filter (\<lambda>p. Product.preco_vista p = Fin 3999) (filter (passes no_filters) tie_collection)
     = [product_A, product_D]"
    by (simp add: tie_collection_def query_eval)
  have a: "products (fst (GET example_sources (Some tie_collection)
      (no_filters\<lparr>sortBy := Some ''preco_asc'', SearchFilters.page := Some (Fin 1),
                   SearchFilters.limit := Some (Fin 4)\<rparr>)))
     = working_set (no_filters\<lparr>sortBy := Some ''preco_asc''\<rparr>) tie_collection"
    using GET_whole_page[OF len pos, of "no_filters\<lparr>sortBy := Some ''preco_asc''\<rparr>"]
    unfolding coll by simp
  have wa: "working_set (no_filters\<lparr>sortBy := Some ''preco_asc''\<rparr>) tie_collection
     = [product_C, product_A, product_D, product_B]"
    by (simp add: tie_collection_def query_eval)
  have d: "products (fst (GET example_sources (Some tie_collection)
      (no_filters\<lparr>sortBy := Some ''preco_desc'', SearchFilters.page := Some (Fin 1),
                   SearchFilters.limit := Some (Fin 4)\<rparr>)))
     = working_set (no_filters\<lparr>sortBy := Some ''preco_desc''\<rparr>) tie_collection"
    using GET_whole_page[OF len pos, of "no_filters\<lparr>sortBy := Some ''preco_desc''\<rparr>"]
    unfolding coll by simp
  have wd: "working_set (no_filters\<lparr>sortBy := Some ''preco_desc''\<rparr>) tie_collection
     = [product_B, product_A, product_D, product_C]"
    by (simp add: tie_collection_def query_eval)
  show ?thesis using a[unfolded wa] d[unfolded wd] r f by blast
qed

subsection \<open>Loading and the cache\<close>

text \<open>
  Claim C9: when a load is attempted (nothing is cached yet) and one of the sources cannot
  be read, the load fails as a whole: \<open>loadProducts\<close> returns a new empty array, not the
  records of the source that could be read.
\<close>

theorem load_fails_as_a_whole:
  assumes "magazineluizaData src = None \<or> mercadolivreData src = None"
  shows "read_and_normalize src = Inl ReadError
    \<and> loadProducts src None = (Local [], None)
    \<and> collection src None = []"
proof -
  have r: "read_and_normalize src = Inl ReadError"
    using assms by (auto simp: read_and_normalize_def split: option.splits)
  then have l: "loadProducts src None = (Local [], None)" by (simp add: loadProducts_def)
  then have "collection src None = []" by (simp add: collection_def deref_def)
  with r l show ?thesis by blast
qed

theorem load_fails_as_a_whole_witness:
  "magazineluizaData broken_sources = Some [example_raw ''A'' ''3999.00'' ''825 GB'']
   \<and> mercadolivreData broken_sources = None
   \<and> loadProducts broken_sources None = (Local [], None)
   \<and> collection broken_sources None = []"
proof -
  have m: "mercadolivreData broken_sources = None" by (simp add: broken_sources_def)
  have a: "magazineluizaData broken_sources = Some [example_raw ''A'' ''3999.00'' ''825 GB'']"
    by (simp add: broken_sources_def)
  from load_fails_as_a_whole[of broken_sources] m a show ?thesis by blast
qed

text \<open>
  Claim C10: a load that throws returns a new empty array and leaves the cache unset, so
  the next call behaves as a first call and attempts the load again; the cache is set
  exactly by a load that succeeds, which returns the cached array itself; and once the
  cache is set every call returns that array and leaves the cache as it is, whatever the
  sources.
\<close>

theorem failed_load_not_cached:
  assumes "read_and_normalize src = Inl e"
  shows "loadProducts src None = (Local [], None)
    \<and> loadProducts src' (snd (loadProducts src None)) = loadProducts src' None
    \<and> (snd (loadProducts src' None) = Some ps) = (read_and_normalize src' = Inr ps)
    \<and> (if read_and_normalize src' = Inr ps then loadProducts src' None = (Cached, Some ps)
        else loadProducts src' None \<noteq> (Cached, Some ps))
    \<and> loadProducts src'' (Some ps) = (Cached, Some ps)"
proof -
  have a: "loadProducts src None = (Local [], None)"
    using assms by (simp add: loadProducts_def)
  have b: "(snd (loadProducts src' None) = Some ps) = (read_and_normalize src' = Inr ps)"
    by (cases "read_and_normalize src'") (simp_all add: loadProducts_def)
  have c: "if read_and_normalize src' = Inr ps then loadProducts src' None = (Cached, Some ps)
        else loadProducts src' None \<noteq> (Cached, Some ps)"
    by (cases "read_and_normalize src'") (simp_all add: loadProducts_def)
  show ?thesis using a b c by (simp add: loadProducts_cached)
qed

theorem failed_load_not_cached_witness:
  "read_and_normalize broken_sources = Inl ReadError
   \<and> loadProducts broken_sources None = (Local [], None)
   \<and> loadProducts example_sources (snd (loadProducts broken_sources None))
       = (Cached, Some [product_A, product_B, product_C])
   \<and> loadProducts broken_sources (Some [product_A, product_B, product_C])
       = (Cached, Some [product_A, product_B, product_C])"
proof -
  have r: "read_and_normalize broken_sources = Inl ReadError"
    by (simp add: read_and_normalize_def broken_sources_def)
  note F = failed_load_not_cached[OF r, of example_sources "[product_A, product_B, product_C]"
      broken_sources]
  have a: "loadProducts broken_sources None = (Local [], None)" using F by (elim conjE)
  have b: "loadProducts example_sources (snd (loadProducts broken_sources None))
       = (Cached, Some [product_A, product_B, product_C])"
    using F[THEN conjunct2, THEN conjunct1] by (simp only: example_load)
  have c: "loadProducts broken_sources (Some [product_A, product_B, product_C])
       = (Cached, Some [product_A, product_B, product_C])"
    using F by (elim conjE)
  show ?thesis using r a b c by blast
qed

subsection \<open>The in-place sort and the original order\<close>

lemma example_cache_after:
  "cache_after (no_filters\<lparr>sortBy := Some ''preco_asc''\<rparr>) (Some [product_A, product_B, product_C])
     = Some [product_C, product_A, product_B]"
  by (simp add: cache_after_def query_eval)

lemma example_first_request:
  "snd (GET example_sources None (no_filters\<lparr>sortBy := Some ''preco_asc''\<rparr>))
     = Some [product_C, product_A, product_B]"
  unfolding GET_cache[OF example_load] example_cache_after by (simp add: loadProducts_cached)

text \<open>
  Claim C2 fails on the code: a request with no filter and a price sort sorts the cached
  array itself. Loaded in the order \<open>A, B, C\<close>, the cache holds \<open>C, A, B\<close> after one
  request sorted by price ascending.
\<close>

theorem price_sort_reorders_cache:
  "snd (loadProducts example_sources None) = Some [product_A, product_B, product_C]
   \<and> snd (GET example_sources (Some [product_A, product_B, product_C])
            (no_filters\<lparr>sortBy := Some ''preco_asc''\<rparr>))
       = Some [product_C, product_A, product_B]"
proof -
  have "snd (GET example_sources (Some [product_A, product_B, product_C])
            (no_filters\<lparr>sortBy := Some ''preco_asc''\<rparr>))
       = Some [product_C, product_A, product_B]"
    unfolding GET_cache[OF loadProducts_cached] example_cache_after
    by (simp add: loadProducts_cached)
  then show ?thesis by (simp add: example_load)
qed

text \<open>
  Claim C1 fails on the code: \<open>loadProducts\<close> gives no record an \<open>originalIndex\<close>, so the
  comparator of the default sort mode is \<open>NaN\<close> on every pair and that sort moves
  nothing. Once a request sorted by price has reordered the cache, a request in the
  default mode returns \<open>C, A, B\<close>, not the load order \<open>A, B, C\<close>.
\<close>

theorem original_order_not_restored:
  "collection example_sources None = [product_A, product_B, product_C]
   \<and> map originalIndex (collection example_sources None) = [None, None, None]
   \<and> products (fst (GET example_sources
                      (snd (GET example_sources None (no_filters\<lparr>sortBy := Some ''preco_asc''\<rparr>)))
                      (no_filters\<lparr>sortBy := Some ''original''\<rparr>)))
       = [product_C, product_A, product_B]"
proof -
  have ws: "working_set (no_filters\<lparr>sortBy := Some ''original''\<rparr>) [product_C, product_A, product_B]
              = [product_C, product_A, product_B]"
    by (simp add: query_eval)
  have coll: "collection example_sources (Some [product_C, product_A, product_B])
              = [product_C, product_A, product_B]"
    by (simp add: collection_def loadProducts_cached deref_def)
  have pg: "or_default (SearchFilters.page (no_filters\<lparr>sortBy := Some ''original''\<rparr>)) (Fin 1) = Fin 1"
    "or_default (SearchFilters.limit (no_filters\<lparr>sortBy := Some ''original''\<rparr>)) (Fin 20) = Fin 20"
    by (simp_all add: no_filters_def or_default_def)
  have "products (fst (GET example_sources (Some [product_C, product_A, product_B])
                      (no_filters\<lparr>sortBy := Some ''original''\<rparr>)))
       = [product_C, product_A, product_B]"
    unfolding GET_products_window[OF loadProducts_cached] coll ws pg
    by (simp add: slice_def relative_index_def)
  then show ?thesis
    unfolding example_first_request by (simp add: example_collection originalIndex_def)
qed

end
